theory Spec2Isabelle
  imports Complex_Main "HOL-Library.Word" "HOL-Library.Sublist"
begin

unbundle bit_operations_syntax

text \<open>
  The streamed answer of the chat client: \<^verbatim>\<open>handleAsk\<close> of the component
  \<^verbatim>\<open>ChatBox\<close> reads the body of the response to a question chunk by chunk, shows the
  text as it grows, and cuts the citations off at the sentinel \<^verbatim>\<open>---__CITATIONS__---\<close>.
  The theory models the platform functions the handler calls (strings, the text decoder,
  \<^verbatim>\<open>JSON.parse\<close>), then \<^verbatim>\<open>apiStream\<close> and \<^verbatim>\<open>handleAsk\<close>, and proves what the handler
  renders.
\<close>

section \<open>Strings of the platform\<close>

text \<open>
  A JavaScript string is a sequence of 16-bit code units; the body of a response arrives
  as chunks of bytes (\<^verbatim>\<open>Uint8Array\<close>).  String literals of the source are ASCII and
  are written with \<open>js\<close>; \<open>ascii\<close> gives the bytes of an ASCII text.
\<close>

type_synonym byte = "8 word"
type_synonym code_unit = "16 word"
type_synonym jsstring = "code_unit list"

definition js :: "string \<Rightarrow> jsstring" where
  "js s = map of_char s"

definition ascii :: "string \<Rightarrow> byte list" where
  "ascii s = map of_char s"

text \<open>\<^verbatim>\<open>String.prototype.includes\<close>: the argument occurs at some position.\<close>

fun includes_js :: "jsstring \<Rightarrow> jsstring \<Rightarrow> bool" where
  "includes_js [] sep = (sep = [])"
| "includes_js (c # cs) sep = (prefix sep (c # cs) \<or> includes_js cs sep)"

text \<open>
  \<^verbatim>\<open>String.prototype.split\<close> with a non-empty separator string and no limit: the
  string is cut at every occurrence of the separator, scanning from the left, an
  occurrence found being skipped whole.  (With the empty separator JavaScript cuts
  between all code units; the source only splits at the sentinel.)
\<close>

function split_acc :: "jsstring \<Rightarrow> jsstring \<Rightarrow> jsstring \<Rightarrow> jsstring list" where
  "split_acc sep acc [] = [rev acc]"
| "split_acc sep acc (c # cs) =
     (if sep \<noteq> [] \<and> prefix sep (c # cs)
      then rev acc # split_acc sep [] (drop (length sep) (c # cs))
      else split_acc sep (c # acc) cs)"
  by pat_completeness auto
termination
  by (relation "measure (\<lambda>(sep, acc, s). length s)") (auto simp: neq_Nil_conv)

definition split_js :: "jsstring \<Rightarrow> jsstring \<Rightarrow> jsstring list" where
  "split_js s sep = (if sep = [] then map (\<lambda>c. [c]) s else split_acc sep [] s)"

text \<open>
  \<^verbatim>\<open>String.prototype.trim\<close> removes the code units of ECMAScript's WhiteSpace and
  LineTerminator productions from both ends.
\<close>

definition is_js_space :: "code_unit \<Rightarrow> bool" where
  "is_js_space c \<longleftrightarrow>
     c \<in> set [0x0009, 0x000A, 0x000B, 0x000C, 0x000D, 0x0020, 0x00A0, 0x1680,
              0x2028, 0x2029, 0x202F, 0x205F, 0x3000, 0xFEFF]
     \<or> (0x2000 \<le> c \<and> c \<le> 0x200A)"

definition trim_js :: "jsstring \<Rightarrow> jsstring" where
  "trim_js s = rev (dropWhile is_js_space (rev (dropWhile is_js_space s)))"

text \<open>Reading an array element that may be absent gives \<^verbatim>\<open>undefined\<close>, here \<open>None\<close>.\<close>

definition at_js :: "'a list \<Rightarrow> nat \<Rightarrow> 'a option" where
  "at_js xs i = (if i < length xs then Some (xs ! i) else None)"

text \<open>\<^verbatim>\<open>x || ""\<close> on a string that may be undefined: undefined and \<^verbatim>\<open>""\<close> both give \<^verbatim>\<open>""\<close>.\<close>

definition or_empty :: "jsstring option \<Rightarrow> jsstring" where
  "or_empty x = (case x of None \<Rightarrow> [] | Some s \<Rightarrow> if s = [] then [] else s)"

text \<open>The decimal digits of a number, as a template literal prints it.\<close>

fun digits_js :: "nat \<Rightarrow> jsstring" where
  "digits_js n = (if n < 10 then [of_nat (48 + n)]
                  else digits_js (n div 10) @ [of_nat (48 + n mod 10)])"

section \<open>The streaming text decoder\<close>

text \<open>
  \<^verbatim>\<open>new TextDecoder()\<close> is the platform's UTF-8 decoder (not fatal, the byte order mark
  not kept), and the source calls it with \<^verbatim>\<open>{ stream: true }\<close> on every chunk, so that
  it keeps an unfinished multi-byte sequence for the next call and is never flushed.
  The model follows the decoder of the Encoding standard byte by byte: \<open>cp\<close> is the
  code point under construction, \<open>needed\<close> and \<open>seen\<close> count its continuation
  bytes, \<open>lower\<close> and \<open>upper\<close> bound the next continuation byte.
\<close>

record decoder_state =
  cp :: nat
  needed :: nat
  seen :: nat
  lower :: byte
  upper :: byte
  bom_seen :: bool

definition new_TextDecoder :: decoder_state where
  "new_TextDecoder = \<lparr>cp = 0, needed = 0, seen = 0, lower = 0x80, upper = 0xBF, bom_seen = False\<rparr>"

definition decoder_reset :: "decoder_state \<Rightarrow> decoder_state" where
  "decoder_reset d = d\<lparr>cp := 0, needed := 0, seen := 0, lower := 0x80, upper := 0xBF\<rparr>"

text \<open>A byte met when no sequence is open.\<close>

definition utf8_lead :: "decoder_state \<Rightarrow> byte \<Rightarrow> decoder_state \<times> nat list" where
  "utf8_lead d b =
     (if b \<le> 0x7F then (d, [unat b])
      else if 0xC2 \<le> b \<and> b \<le> 0xDF then (d\<lparr>cp := unat (b AND 0x1F), needed := 1\<rparr>, [])
      else if 0xE0 \<le> b \<and> b \<le> 0xEF then
        (d\<lparr>cp := unat (b AND 0x0F), needed := 2,
           lower := (if b = 0xE0 then 0xA0 else lower d),
           upper := (if b = 0xED then 0x9F else upper d)\<rparr>, [])
      else if 0xF0 \<le> b \<and> b \<le> 0xF4 then
        (d\<lparr>cp := unat (b AND 0x07), needed := 3,
           lower := (if b = 0xF0 then 0x90 else lower d),
           upper := (if b = 0xF4 then 0x8F else upper d)\<rparr>, [])
      else (d, [0xFFFD]))"

text \<open>
  One byte: the code points it completes.  A byte that cannot continue the open sequence
  gives U+FFFD for the sequence and is then read again as a first byte.
\<close>

definition utf8_step :: "decoder_state \<Rightarrow> byte \<Rightarrow> decoder_state \<times> nat list" where
  "utf8_step d b =
     (if needed d = 0 then utf8_lead d b
      else if \<not> (lower d \<le> b \<and> b \<le> upper d) then
        (let (d', out) = utf8_lead (decoder_reset d) b in (d', 0xFFFD # out))
      else
        (let d1 = d\<lparr>cp := cp d * 64 + unat (b AND 0x3F), seen := seen d + 1,
                     lower := 0x80, upper := 0xBF\<rparr>
         in if seen d1 \<noteq> needed d1 then (d1, []) else (decoder_reset d1, [cp d1])))"

fun utf8_run :: "decoder_state \<Rightarrow> byte list \<Rightarrow> decoder_state \<times> nat list" where
  "utf8_run d [] = (d, [])"
| "utf8_run d (b # bs) =
     (let (d1, out1) = utf8_step d b; (d2, out2) = utf8_run d1 bs in (d2, out1 @ out2))"

text \<open>A code point as UTF-16 code units.\<close>

definition utf16 :: "nat \<Rightarrow> jsstring" where
  "utf16 c =
     (if c < 0x10000 then [of_nat c]
      else [of_nat (0xD800 + (c - 0x10000) div 0x400), of_nat (0xDC00 + (c - 0x10000) mod 0x400)])"

text \<open>
  \<^verbatim>\<open>decoder.decode(value, { stream: true })\<close>: the text of the chunk and the decoder
  after it.  A byte order mark that opens the stream is dropped.
\<close>

definition decode :: "decoder_state \<Rightarrow> byte list \<Rightarrow> jsstring \<times> decoder_state" where
  "decode d bytes =
     (let (d1, cps) = utf8_run d bytes;
          cps' = (if \<not> bom_seen d1 \<and> cps \<noteq> [] \<and> hd cps = 0xFEFF then tl cps else cps);
          d2 = (if cps \<noteq> [] then d1\<lparr>bom_seen := True\<rparr> else d1)
      in (concat (map utf16 cps'), d2))"

section \<open>JSON values and \<^verbatim>\<open>JSON.parse\<close>\<close>

text \<open>
  The value \<^verbatim>\<open>JSON.parse\<close> builds.  An object is the list of its properties in the
  order of their first appearance, a repeated key keeping its place and taking the later
  value (JavaScript enumerates keys that are array indices before the others; the list
  does not).  A number is the exact value of its numeral (JavaScript then rounds it to a
  double, which is not modelled).
\<close>

datatype json =
    JNull
  | JBool bool
  | JNumber rat
  | JString jsstring
  | JArray "json list"
  | JObject "(jsstring \<times> json) list"

definition is_json_space :: "code_unit \<Rightarrow> bool" where
  "is_json_space c \<longleftrightarrow> c = 0x20 \<or> c = 0x09 \<or> c = 0x0A \<or> c = 0x0D"

definition skip_ws :: "jsstring \<Rightarrow> jsstring" where
  "skip_ws s = dropWhile is_json_space s"

definition is_digit :: "code_unit \<Rightarrow> bool" where
  "is_digit c \<longleftrightarrow> 0x30 \<le> c \<and> c \<le> 0x39"

definition hex_digit :: "code_unit \<Rightarrow> nat option" where
  "hex_digit c =
     (if 0x30 \<le> c \<and> c \<le> 0x39 then Some (unat c - 0x30)
      else if 0x41 \<le> c \<and> c \<le> 0x46 then Some (unat c - 0x41 + 10)
      else if 0x61 \<le> c \<and> c \<le> 0x66 then Some (unat c - 0x61 + 10)
      else None)"

definition hex4 :: "code_unit \<Rightarrow> code_unit \<Rightarrow> code_unit \<Rightarrow> code_unit \<Rightarrow> code_unit option" where
  "hex4 a b c d =
     (case (hex_digit a, hex_digit b, hex_digit c, hex_digit d) of
        (Some h1, Some h2, Some h3, Some h4) \<Rightarrow> Some (of_nat (((h1 * 16 + h2) * 16 + h3) * 16 + h4))
      | _ \<Rightarrow> None)"

text \<open>The character after a backslash, other than \<^verbatim>\<open>u\<close>.\<close>

definition simple_escape :: "code_unit \<Rightarrow> code_unit option" where
  "simple_escape e =
     (if e = 0x22 then Some 0x22 else if e = 0x5C then Some 0x5C
      else if e = 0x2F then Some 0x2F else if e = 0x62 then Some 0x08
      else if e = 0x66 then Some 0x0C else if e = 0x6E then Some 0x0A
      else if e = 0x72 then Some 0x0D else if e = 0x74 then Some 0x09
      else None)"

text \<open>
  A string after its opening quote: the characters up to the closing quote, and what
  follows it.  A control character, an unknown escape and the end of the text are errors.
\<close>

fun parse_string :: "jsstring \<Rightarrow> jsstring \<Rightarrow> (jsstring \<times> jsstring) option" where
  "parse_string acc [] = None"
| "parse_string acc (c # cs) =
     (if c = 0x22 then Some (rev acc, cs)
      else if c = 0x5C then
        (case cs of
           [] \<Rightarrow> None
         | e # cs1 \<Rightarrow>
             if e = 0x75 then
               (case cs1 of
                  h1 # h2 # h3 # h4 # cs2 \<Rightarrow>
                    (case hex4 h1 h2 h3 h4 of
                       None \<Rightarrow> None
                     | Some u \<Rightarrow> parse_string (u # acc) cs2)
                | _ \<Rightarrow> None)
             else
               (case simple_escape e of
                  None \<Rightarrow> None
                | Some u \<Rightarrow> parse_string (u # acc) cs1))
      else if c < 0x20 then None
      else parse_string (c # acc) cs)"

text \<open>The value of a run of decimal digits.\<close>

definition digits_value :: "jsstring \<Rightarrow> nat" where
  "digits_value ds = foldl (\<lambda>n c. 10 * n + (unat c - 0x30)) 0 ds"

text \<open>
  A numeral: an optional minus, an integer part without a leading zero (unless it is 0
  alone), an optional fraction, an optional exponent.  Each part returns what it read and
  the text left.
\<close>

definition parse_minus :: "jsstring \<Rightarrow> bool \<times> jsstring" where
  "parse_minus s = (case s of [] \<Rightarrow> (False, s) | c # r \<Rightarrow> if c = 0x2D then (True, r) else (False, s))"

definition parse_fraction :: "jsstring \<Rightarrow> (jsstring \<times> jsstring) option" where
  "parse_fraction s =
     (case s of
        [] \<Rightarrow> Some ([], s)
      | c # r \<Rightarrow>
          if c = 0x2E then
            (if takeWhile is_digit r = [] then None
             else Some (takeWhile is_digit r, dropWhile is_digit r))
          else Some ([], s))"

definition exponent_sign :: "jsstring \<Rightarrow> bool \<times> jsstring" where
  "exponent_sign s =
     (case s of
        [] \<Rightarrow> (False, s)
      | c # r \<Rightarrow> if c = 0x2D then (True, r) else if c = 0x2B then (False, r) else (False, s))"

definition parse_exponent :: "jsstring \<Rightarrow> (int \<times> jsstring) option" where
  "parse_exponent s =
     (case s of
        [] \<Rightarrow> Some (0, s)
      | c # r \<Rightarrow>
          if c = 0x65 \<or> c = 0x45 then
            (let (eneg, r1) = exponent_sign r
             in if takeWhile is_digit r1 = [] then None
                else Some (if eneg then - int (digits_value (takeWhile is_digit r1))
                           else int (digits_value (takeWhile is_digit r1)),
                           dropWhile is_digit r1))
          else Some (0, s))"

definition parse_number :: "jsstring \<Rightarrow> (rat \<times> jsstring) option" where
  "parse_number s =
     (let (neg, s1) = parse_minus s;
          ds = takeWhile is_digit s1
      in if ds = [] \<or> (1 < length ds \<and> hd ds = 0x30) then None
         else
           (case parse_fraction (dropWhile is_digit s1) of
              None \<Rightarrow> None
            | Some (fs, s3) \<Rightarrow>
                (case parse_exponent s3 of
                   None \<Rightarrow> None
                 | Some (e, s4) \<Rightarrow>
                     (let m = of_nat (digits_value (ds @ fs)) :: rat;
                          e' = e - int (length fs);
                          v = (if 0 \<le> e' then m * 10 ^ nat e' else m / 10 ^ nat (- e'))
                      in Some (if neg then - v else v, s4)))))"

text \<open>
  Setting a property: a key already present keeps its position and takes the new value.
\<close>

fun set_property :: "jsstring \<Rightarrow> json \<Rightarrow> (jsstring \<times> json) list \<Rightarrow> (jsstring \<times> json) list" where
  "set_property k v [] = [(k, v)]"
| "set_property k v ((k', v') # ps) =
     (if k = k' then (k, v) # ps else (k', v') # set_property k v ps)"

text \<open>Skipping white space does not lengthen the text.\<close>

lemma length_skip_ws: "length (skip_ws s) \<le> length s"
  by (simp add: skip_ws_def length_dropWhile_le)

lemma skip_ws_Cons_length: "skip_ws s = c # cs \<Longrightarrow> length cs < length s"
  using length_skip_ws [of s] by simp

text \<open>
  A value, the elements of an array after its bracket, and the members of an object after
  its brace; each returns what it built and the text left.  The tests on the length of
  the text left state that the parse has advanced; they are what the recursion
  terminates by, and they always succeed (\<open>parse_elements_unguarded\<close> and
  \<open>parse_members_unguarded\<close> below).
\<close>

function parse_value :: "jsstring \<Rightarrow> (json \<times> jsstring) option"
  and parse_elements :: "json list \<Rightarrow> jsstring \<Rightarrow> (json \<times> jsstring) option"
  and parse_members :: "(jsstring \<times> json) list \<Rightarrow> jsstring \<Rightarrow> (json \<times> jsstring) option"
where
  "parse_value s =
     (case skip_ws s of
        [] \<Rightarrow> None
      | c # cs \<Rightarrow>
          if c = 0x7B then
            (case skip_ws cs of
               [] \<Rightarrow> None
             | c' # r \<Rightarrow> if c' = 0x7D then Some (JObject [], r) else parse_members [] cs)
          else if c = 0x5B then
            (case skip_ws cs of
               [] \<Rightarrow> None
             | c' # r \<Rightarrow> if c' = 0x5D then Some (JArray [], r) else parse_elements [] cs)
          else if c = 0x22 then
            (case parse_string [] cs of None \<Rightarrow> None | Some (str, r) \<Rightarrow> Some (JString str, r))
          else if prefix (js ''true'') (c # cs) then Some (JBool True, drop 4 (c # cs))
          else if prefix (js ''false'') (c # cs) then Some (JBool False, drop 5 (c # cs))
          else if prefix (js ''null'') (c # cs) then Some (JNull, drop 4 (c # cs))
          else (case parse_number (c # cs) of None \<Rightarrow> None | Some (n, r) \<Rightarrow> Some (JNumber n, r)))"
| "parse_elements acc s =
     (case parse_value s of
        None \<Rightarrow> None
      | Some (v, r) \<Rightarrow>
          (case skip_ws r of
             [] \<Rightarrow> None
           | c # r' \<Rightarrow>
               if c = 0x2C then (if length r' < length s then parse_elements (v # acc) r' else None)
               else if c = 0x5D then Some (JArray (rev (v # acc)), r')
               else None))"
| "parse_members acc s =
     (case skip_ws s of
        [] \<Rightarrow> None
      | q # cs \<Rightarrow>
          if q \<noteq> 0x22 then None
          else
            (case parse_string [] cs of
               None \<Rightarrow> None
             | Some (k, r) \<Rightarrow>
                 (case skip_ws r of
                    [] \<Rightarrow> None
                  | c # r1 \<Rightarrow>
                      if c \<noteq> 0x3A \<or> \<not> length r1 < length s then None
                      else
                        (case parse_value r1 of
                           None \<Rightarrow> None
                         | Some (v, r2) \<Rightarrow>
                             (case skip_ws r2 of
                                [] \<Rightarrow> None
                              | c' # r3 \<Rightarrow>
                                  if c' = 0x2C then
                                    (if length r3 < length s
                                     then parse_members (set_property k v acc) r3 else None)
                                  else if c' = 0x7D then Some (JObject (set_property k v acc), r3)
                                  else None)))))"
  by pat_completeness auto

termination
  by (relation "measure (\<lambda>x. case x of
          Inl s \<Rightarrow> 2 * length s
        | Inr (Inl (acc, s)) \<Rightarrow> 2 * length s + 1
        | Inr (Inr (acc, s)) \<Rightarrow> 2 * length s + 1)")
     (auto dest: skip_ws_Cons_length)

text \<open>
  \<^verbatim>\<open>JSON.parse(text)\<close>: one value with nothing but white space after it; \<open>None\<close> is
  the \<^verbatim>\<open>SyntaxError\<close> it throws.
\<close>

definition JSON_parse :: "jsstring \<Rightarrow> json option" where
  "JSON_parse s =
     (case parse_value s of
        None \<Rightarrow> None
      | Some (v, r) \<Rightarrow> if skip_ws r = [] then Some v else None)"

section \<open>The transport: \<^verbatim>\<open>apiStream\<close> (config.js)\<close>

text \<open>
  What the network does for one request is an input of the model.  \<^verbatim>\<open>fetch\<close> either
  rejects (with the message of its error) or resolves to a response; a response has a
  status, a body that may be missing, and the text \<^verbatim>\<open>response.text()\<close> would give.  The
  body is the chunks its reader hands out, in order, and the way the reading ends:
  \<^verbatim>\<open>done\<close>, or a read that rejects.  A body is taken to end in one of these two ways:
  a stream that neither closes nor fails keeps the loop waiting, and there is no final
  state to speak of.  An error is carried as its message, \<open>Inl\<close> of a result.
\<close>

datatype stream_end = StreamDone | ReadRejected jsstring

record Body =
  chunks :: "byte list list"
  ending :: stream_end

record Response =
  status :: nat
  body :: "Body option"
  text_result :: "jsstring + jsstring"

datatype fetch_outcome = FetchRejected jsstring | FetchResolved Response

text \<open>\<^verbatim>\<open>response.ok\<close>: the status is in the range 200 to 299.\<close>

definition ok :: "Response \<Rightarrow> bool" where
  "ok r \<longleftrightarrow> 200 \<le> status r \<and> status r \<le> 299"

record Request =
  url :: jsstring
  http_method :: jsstring
  headers :: "(jsstring \<times> jsstring) list"
  payload :: json

datatype event =
    Alert jsstring
  | Fetch Request
  | ConsoleError jsstring
  | JsonParse jsstring
  | SetLoading bool
  | SetQuestion jsstring

definition API_BASE_URL :: jsstring where
  "API_BASE_URL = js ''http://localhost:8000''"

text \<open>
  \<^verbatim>\<open>apiStream(endpoint, options)\<close>, the token argument left at its default \<^verbatim>\<open>null\<close> as
  the caller does.  \<open>apiStream_request\<close> is the request it hands to \<^verbatim>\<open>fetch\<close>, the
  body being kept as the value that \<^verbatim>\<open>JSON.stringify\<close> is given; \<open>apiStream\<close> is what
  it returns or throws, given what the network does.
\<close>

definition apiStream_request ::
  "jsstring \<Rightarrow> jsstring \<Rightarrow> json \<Rightarrow> (jsstring \<times> jsstring) list \<Rightarrow> Request" where
  "apiStream_request endpoint meth data hdrs =
     \<lparr>url = API_BASE_URL @ endpoint, http_method = meth,
      headers = (js ''Content-Type'', js ''application/json'') # hdrs,
      payload = data\<rparr>"

definition apiStream :: "fetch_outcome \<Rightarrow> jsstring + Response" where
  "apiStream net =
     (case net of
        FetchRejected msg \<Rightarrow> Inl msg
      | FetchResolved response \<Rightarrow>
          if \<not> ok response then
            (case text_result response of
               Inl msg \<Rightarrow> Inl msg
             | Inr errorText \<Rightarrow>
                 Inl (js ''Server error: '' @ digits_js (status response) @ js '' - '' @ errorText))
          else Inr response)"

section \<open>The chat box: \<^verbatim>\<open>handleAsk\<close> (ChatBox.js)\<close>

text \<open>
  The component \<^verbatim>\<open>ChatBox\<close> is the second part of the file
  \<^verbatim>\<open>src/frontend/src/components/VoiceOutput.js\<close>; the line numbers below are those of
  that file.

  A message of the transcript.  The message of the user has no \<^verbatim>\<open>citations\<close> property
  (\<open>None\<close>); the time stamps are read from the clock, an input of the model.
\<close>

record ChatMessage =
  sender :: jsstring
  msg_text :: jsstring
  citations :: "json option"
  timestamp :: nat

text \<open>
  The state of the component, with a log of what it did to the outside (\<open>events\<close>) and
  of the message lists it handed to the renderer, one for each \<^verbatim>\<open>setMessages\<close>, in
  order (\<open>rendered\<close>).
\<close>

record ChatBox =
  question :: jsstring
  messages :: "ChatMessage list"
  loading :: bool
  events :: "event list"
  rendered :: "ChatMessage list list"

record Props =
  sessionId :: "jsstring option"
  sessionToken :: "jsstring option"

record Env =
  network :: fetch_outcome
  now_question :: nat
  now_answer :: nat
  now_error :: nat

definition SENTINEL :: jsstring where
  "SENTINEL = js ''---__CITATIONS__---''"

definition emit :: "event \<Rightarrow> ChatBox \<Rightarrow> ChatBox" where
  "emit e w = w\<lparr>events := events w @ [e]\<rparr>"

text \<open>\<^verbatim>\<open>setMessages(prev => f(prev))\<close>.\<close>

definition setMessages :: "(ChatMessage list \<Rightarrow> ChatMessage list) \<Rightarrow> ChatBox \<Rightarrow> ChatBox" where
  "setMessages f w = w\<lparr>messages := f (messages w), rendered := rendered w @ [f (messages w)]\<rparr>"

definition setLoading :: "bool \<Rightarrow> ChatBox \<Rightarrow> ChatBox" where
  "setLoading b w = emit (SetLoading b) (w\<lparr>loading := b\<rparr>)"

definition setQuestion :: "jsstring \<Rightarrow> ChatBox \<Rightarrow> ChatBox" where
  "setQuestion q w = emit (SetQuestion q) (w\<lparr>question := q\<rparr>)"

text \<open>
  The updater of lines 166 to 170 and 183 to 187: a copy of the list with its last
  element replaced.  On the empty list the assignment goes to index -1, which is no
  element of the array: the list stays empty.
\<close>

definition replace_last :: "ChatMessage \<Rightarrow> ChatMessage list \<Rightarrow> ChatMessage list" where
  "replace_last m prev = (if prev = [] then [] else prev[length prev - 1 := m])"

text \<open>A string that may be \<^verbatim>\<open>null\<close>, in a condition and in a template literal.\<close>

definition falsy :: "jsstring option \<Rightarrow> bool" where
  "falsy x \<longleftrightarrow> x = None \<or> x = Some []"

definition to_string :: "jsstring option \<Rightarrow> jsstring" where
  "to_string x = (case x of None \<Rightarrow> js ''null'' | Some s \<Rightarrow> s)"

text \<open>The variables of the read loop.\<close>

record loop_vars =
  buffer :: jsstring
  botMessage :: ChatMessage
  citationsData :: jsstring
  decoder :: decoder_state

text \<open>
  The read loop, lines 152 to 173, over the chunks the reader still has.  Each round
  reads a chunk, appends its text to the buffer and either finds the sentinel in the
  buffer, cuts the buffer and leaves the loop, or shows the buffer as the text of the
  answer and goes on.  The pause of 10 ms at the end of a round changes nothing here.
\<close>

fun read_loop ::
  "byte list list \<Rightarrow> stream_end \<Rightarrow> loop_vars \<Rightarrow> ChatBox \<Rightarrow> (jsstring + loop_vars) \<times> ChatBox" where
  "read_loop [] StreamDone v w = (Inr v, w)"
| "read_loop [] (ReadRejected msg) v w = (Inl msg, w)"
| "read_loop (chunk # rest) e v w =
     (let (decoded, d) = decode (decoder v) chunk;
          v1 = v\<lparr>buffer := buffer v @ decoded, decoder := d\<rparr>
      in if includes_js (buffer v1) SENTINEL then
           (let parts = split_js (buffer v1) SENTINEL;
                v2 = v1\<lparr>botMessage := (botMessage v1)\<lparr>msg_text := or_empty (at_js parts 0)\<rparr>\<rparr>;
                v3 = v2\<lparr>citationsData := or_empty (map_option trim_js (at_js parts 1))\<rparr>
            in (Inr v3, w))
         else
           (let v2 = v1\<lparr>botMessage := (botMessage v1)\<lparr>msg_text := buffer v1\<rparr>\<rparr>
            in read_loop rest e v2 (setMessages (replace_last (botMessage v2)) w)))"

text \<open>
  Lines 175 to 187, after the loop: the citations are parsed when there are any, a parse
  that throws is logged and leaves the citations as they were, and the answer is shown.
\<close>

definition finalize :: "loop_vars \<Rightarrow> ChatBox \<Rightarrow> ChatBox" where
  "finalize v w =
     (let (bot, w1) =
            (if citationsData v \<noteq> [] then
               (case JSON_parse (citationsData v) of
                  Some c \<Rightarrow> ((botMessage v)\<lparr>citations := Some c\<rparr>, emit (JsonParse (citationsData v)) w)
                | None \<Rightarrow> (botMessage v,
                            emit (ConsoleError (js ''Failed to parse citations''))
                              (emit (JsonParse (citationsData v)) w)))
             else (botMessage v, w))
      in setMessages (replace_last bot) w1)"

text \<open>
  The body of the \<^verbatim>\<open>try\<close>, lines 135 to 187: \<open>Inl\<close> is the message of the error
  thrown, with the state at the throw.

  Line 147 puts the object \<^verbatim>\<open>botMessage\<close> itself into the list, and lines 160, 165 and
  177 assign to that object.  Every one of these assignments is followed, before any step
  that can throw, by an updater that puts a copy of the object in the last place of the
  list (lines 166 to 170, 183 to 187), so the lists rendered are the ones of this model,
  in which the list holds values.  Each updater is applied where \<^verbatim>\<open>setMessages\<close> is
  called, in the order of the calls.
\<close>

definition ask_request :: "Props \<Rightarrow> ChatBox \<Rightarrow> Request" where
  "ask_request p w =
     apiStream_request (js ''/ask'') (js ''POST'')
       (JObject [(js ''question'', JString (question w)),
                 (js ''session_id'', JString (to_string (sessionId p)))])
       [(js ''Authorization'', js ''Bearer '' @ to_string (sessionToken p))]"

definition try_block :: "Props \<Rightarrow> Env \<Rightarrow> ChatBox \<Rightarrow> (jsstring + unit) \<times> ChatBox" where
  "try_block p env w =
     (let w1 = emit (Fetch (ask_request p w)) w
      in case apiStream (network env) of
           Inl msg \<Rightarrow> (Inl msg, w1)
         | Inr response \<Rightarrow>
             (case body response of
                None \<Rightarrow> (Inl (js ''No response body''), w1)
              | Some b \<Rightarrow>
                  (let bot = \<lparr>sender = js ''AI'', msg_text = [], citations = Some (JArray []),
                              timestamp = now_answer env\<rparr>;
                       w2 = setMessages (\<lambda>prev. prev @ [bot]) w1;
                       v = \<lparr>buffer = [], botMessage = bot, citationsData = [],
                            decoder = new_TextDecoder\<rparr>
                   in case read_loop (chunks b) (ending b) v w2 of
                        (Inl msg, w3) \<Rightarrow> (Inl msg, w3)
                      | (Inr v', w3) \<Rightarrow> (Inr (), finalize v' w3))))"

text \<open>The \<^verbatim>\<open>catch\<close>, lines 189 to 194: the error is logged and shown as a message of its own.\<close>

definition error_message :: "jsstring \<Rightarrow> nat \<Rightarrow> ChatMessage" where
  "error_message msg t =
     \<lparr>sender = js ''AI'', msg_text = js ''Error: '' @ msg, citations = Some (JArray []), timestamp = t\<rparr>"

definition catch_block :: "Env \<Rightarrow> jsstring \<Rightarrow> ChatBox \<Rightarrow> ChatBox" where
  "catch_block env msg w =
     setMessages (\<lambda>prev. prev @ [error_message msg (now_error env)])
       (emit (ConsoleError (js ''Error asking question:'')) w)"

text \<open>\<^verbatim>\<open>handleAsk\<close>, lines 123 to 199.\<close>

definition handleAsk :: "Props \<Rightarrow> Env \<Rightarrow> ChatBox \<Rightarrow> ChatBox" where
  "handleAsk p env w =
     (if falsy (sessionId p) then emit (Alert (js ''Please upload PDFs or load a session first!'')) w
      else if trim_js (question w) = [] then w
      else
        (let newMessage = \<lparr>sender = js ''You'', msg_text = question w, citations = None,
                           timestamp = now_question env\<rparr>;
             w1 = setLoading True (setMessages (\<lambda>prev. prev @ [newMessage]) w);
             w2 = (case try_block p env w1 of
                     (Inr u, w') \<Rightarrow> w'
                   | (Inl msg, w') \<Rightarrow> catch_block env msg w')
         in setQuestion [] (setLoading False w2)))"

section \<open>Notions the properties are stated with\<close>

text \<open>
  The buffers of the read loop, one after each chunk, and the whole text of a sequence of
  chunks, from a decoder state on.
\<close>

fun buffers :: "decoder_state \<Rightarrow> jsstring \<Rightarrow> byte list list \<Rightarrow> jsstring list" where
  "buffers d b [] = []"
| "buffers d b (chunk # rest) =
     (let (decoded, d') = decode d chunk in (b @ decoded) # buffers d' (b @ decoded) rest)"

fun decode_all :: "decoder_state \<Rightarrow> byte list list \<Rightarrow> jsstring" where
  "decode_all d [] = []"
| "decode_all d (chunk # rest) =
     (let (decoded, d') = decode d chunk in decoded @ decode_all d' rest)"

text \<open>
  The buffers before the first one that holds the sentinel, and that first one if there
  is one.
\<close>

definition shown :: "jsstring list \<Rightarrow> jsstring list" where
  "shown bs = takeWhile (\<lambda>b. \<not> includes_js b SENTINEL) bs"

definition detected :: "jsstring list \<Rightarrow> jsstring option" where
  "detected bs = find (\<lambda>b. includes_js b SENTINEL) bs"

text \<open>The message of the user, and the answer with a given text and given citations.\<close>

definition user_message :: "Env \<Rightarrow> ChatBox \<Rightarrow> ChatMessage" where
  "user_message env w =
     \<lparr>sender = js ''You'', msg_text = question w, citations = None, timestamp = now_question env\<rparr>"

definition answer :: "Env \<Rightarrow> jsstring \<Rightarrow> json \<Rightarrow> ChatMessage" where
  "answer env t c = \<lparr>sender = js ''AI'', msg_text = t, citations = Some c, timestamp = now_answer env\<rparr>"

text \<open>
  What \<open>finalize\<close> makes of a payload: the citations the answer ends with, and the
  events of the parse.  \<open>loop_start\<close> and \<open>opened\<close> are the variables and the state
  with which \<^verbatim>\<open>handleAsk\<close> enters the read loop.
\<close>

definition final_citations :: "jsstring \<Rightarrow> json" where
  "final_citations P =
     (if P = [] then JArray [] else case JSON_parse P of Some c \<Rightarrow> c | None \<Rightarrow> JArray [])"

definition parse_log :: "jsstring \<Rightarrow> event list" where
  "parse_log P =
     (if P = [] then []
      else JsonParse P # (case JSON_parse P of
                            Some c \<Rightarrow> []
                          | None \<Rightarrow> [ConsoleError (js ''Failed to parse citations'')]))"

definition loop_start :: "Env \<Rightarrow> loop_vars" where
  "loop_start env = \<lparr>buffer = [], botMessage = answer env [] (JArray []), citationsData = [],
                     decoder = new_TextDecoder\<rparr>"

definition opened :: "Props \<Rightarrow> Env \<Rightarrow> ChatBox \<Rightarrow> ChatBox" where
  "opened p env w =
     setMessages (\<lambda>prev. prev @ [answer env [] (JArray [])])
       (emit (Fetch (ask_request p w))
          (setLoading True (setMessages (\<lambda>prev. prev @ [user_message env w]) w)))"

text \<open>
  A concrete setting for the examples: a question typed in, a session, and a network that
  answers 200 with the given chunks and the given end of the stream.
\<close>

definition example_box :: ChatBox where
  "example_box = \<lparr>question = js ''What is the answer?'', messages = [], loading = False,
                   events = [], rendered = []\<rparr>"

definition example_props :: Props where
  "example_props = \<lparr>sessionId = Some (js ''s1''), sessionToken = Some (js ''tok'')\<rparr>"

definition example_env :: "byte list list \<Rightarrow> stream_end \<Rightarrow> Env" where
  "example_env cs e =
     \<lparr>network = FetchResolved \<lparr>status = 200, body = Some \<lparr>chunks = cs, ending = e\<rparr>,
                                text_result = Inr []\<rparr>,
      now_question = 1, now_answer = 2, now_error = 3\<rparr>"

text \<open>The messages of the example runs: the question, and the answer with a text and citations.\<close>

definition example_question :: ChatMessage where
  "example_question =
     \<lparr>sender = js ''You'', msg_text = js ''What is the answer?'', citations = None, timestamp = 1\<rparr>"

definition example_answer :: "jsstring \<Rightarrow> json \<Rightarrow> ChatMessage" where
  "example_answer t c = \<lparr>sender = js ''AI'', msg_text = t, citations = Some c, timestamp = 2\<rparr>"

text \<open>
  The response of the specification's example, and the citation it carries.
\<close>

definition answer_42 :: string where
  "answer_42 =
     ''The answer is 42.---__CITATIONS__---[{\"source\":\"doc.pdf\",\"page\":3,\"preview\":\"...\"}]''"

definition doc_citation :: json where
  "doc_citation =
     JObject [(js ''source'', JString (js ''doc.pdf'')), (js ''page'', JNumber 3),
              (js ''preview'', JString (js ''...''))]"

section \<open>Facts about the parser\<close>

text \<open>Whatever a parser returns, it has read something: the text left is shorter.\<close>

lemma parse_string_shorter: "parse_string acc s = Some (str, r) \<Longrightarrow> length r < length s"
proof (induction acc s rule: parse_string.induct)
  case (1 acc)
  then show ?case by simp
next
  case (2 acc c cs)
  show ?case
  proof (cases "c = 0x22")
    case True
    with "2.prems" show ?thesis by simp
  next
    case quote: False
    show ?thesis
    proof (cases "c = 0x5C")
      case False
      with quote "2.prems" have "parse_string (c # acc) cs = Some (str, r)"
        by (simp split: if_splits)
      with "2.IH"(3) quote False "2.prems" have "length r < length cs"
        by (simp split: if_splits)
      then show ?thesis by simp
    next
      case True
      with quote "2.prems" obtain e cs1 where cs: "cs = e # cs1"
        by (cases cs) auto
      show ?thesis
      proof (cases "e = 0x75")
        case False
        with quote True cs "2.prems" obtain u where u: "simple_escape e = Some u"
          and p: "parse_string (u # acc) cs1 = Some (str, r)"
          by (auto split: option.splits)
        from "2.IH"(2) [OF quote True cs False u p] show ?thesis using cs by simp
      next
        case eu: True
        with quote True cs "2.prems" obtain h1 h2 h3 h4 cs2 u
          where cs1: "cs1 = h1 # h2 # h3 # h4 # cs2" and u: "hex4 h1 h2 h3 h4 = Some u"
            and p: "parse_string (u # acc) cs2 = Some (str, r)"
          by (auto split: list.splits option.splits)
        have "length r < length cs2"
          using "2.IH"(1) quote True cs eu cs1 u p by blast
        then show ?thesis using cs cs1 by simp
      qed
    qed
  qed
qed

lemma dropWhile_shorter: "takeWhile P xs \<noteq> [] \<Longrightarrow> length (dropWhile P xs) < length xs"
  by (cases xs) (auto simp: le_imp_less_Suc length_dropWhile_le split: if_splits)

lemma parse_minus_length: "length (snd (parse_minus s)) \<le> length s"
  by (auto simp: parse_minus_def split: list.splits)

lemma exponent_sign_length: "length (snd (exponent_sign s)) \<le> length s"
  by (auto simp: exponent_sign_def split: list.splits)

lemma parse_fraction_length: "parse_fraction s = Some (fs, r) \<Longrightarrow> length r \<le> length s"
  by (auto simp: parse_fraction_def le_SucI length_dropWhile_le split: list.splits if_splits)

lemma parse_exponent_length: "parse_exponent s = Some (e, r) \<Longrightarrow> length r \<le> length s"
proof (cases s)
  case Nil
  assume "parse_exponent s = Some (e, r)"
  with Nil show ?thesis by (simp add: parse_exponent_def)
next
  case (Cons c cs)
  assume a: "parse_exponent s = Some (e, r)"
  show ?thesis
  proof (cases "c = 0x65 \<or> c = 0x45")
    case False
    with a Cons show ?thesis by (simp add: parse_exponent_def)
  next
    case True
    obtain eneg r1 where es: "exponent_sign cs = (eneg, r1)" by (cases "exponent_sign cs")
    with a Cons True have "r = dropWhile is_digit r1"
      by (auto simp: parse_exponent_def split: if_splits)
    moreover have "length r1 \<le> length cs" using exponent_sign_length [of cs] es by simp
    ultimately have "length r \<le> length cs"
      using length_dropWhile_le [of is_digit r1] by simp
    with Cons show ?thesis by simp
  qed
qed

lemma parse_number_shorter: "parse_number s = Some (n, r) \<Longrightarrow> length r < length s"
proof -
  assume a: "parse_number s = Some (n, r)"
  obtain neg s1 where pm: "parse_minus s = (neg, s1)" by (cases "parse_minus s")
  have s1: "length s1 \<le> length s" using parse_minus_length [of s] pm by simp
  from a pm have ne: "takeWhile is_digit s1 \<noteq> []"
    by (auto simp: parse_number_def Let_def split: if_splits)
  from a pm ne obtain fs s3 where pf: "parse_fraction (dropWhile is_digit s1) = Some (fs, s3)"
    by (auto simp: parse_number_def Let_def split: if_splits option.splits)
  from a pm ne pf obtain e where pe: "parse_exponent s3 = Some (e, r)"
    by (auto simp: parse_number_def Let_def split: if_splits option.splits)
  from dropWhile_shorter [OF ne] parse_fraction_length [OF pf] parse_exponent_length [OF pe] s1
  show ?thesis by linarith
qed

lemmas parse_simps = parse_value.simps parse_elements.simps parse_members.simps

lemma prefix_drop_shorter: "prefix p s \<Longrightarrow> p \<noteq> [] \<Longrightarrow> length (drop (length p) s) < length s"
  by (auto simp: prefix_def)

lemma parse_shorter_all:
  "(\<forall>v r. parse_value s = Some (v, r) \<longrightarrow> length r < length s)
   \<and> (\<forall>acc v r. parse_elements acc s = Some (v, r) \<longrightarrow> length r < length s)
   \<and> (\<forall>acc v r. parse_members acc s = Some (v, r) \<longrightarrow> length r < length s)"
proof (induction "length s" arbitrary: s rule: less_induct)
  case less
  have IHe: "length r < length t"
    if "length t < length s" "parse_elements acc t = Some (v, r)" for t acc v r
    using less [OF that(1)] that(2) by blast
  have IHm: "length r < length t"
    if "length t < length s" "parse_members acc t = Some (v, r)" for t acc v r
    using less [OF that(1)] that(2) by blast
  have IHv: "length r < length t"
    if "length t < length s" "parse_value t = Some (v, r)" for t v r
    using less [OF that(1)] that(2) by blast
  have val: "length r < length s" if a: "parse_value s = Some (v, r)" for v r
  proof -
    from a obtain c cs where sk: "skip_ws s = c # cs"
      by (subst (asm) parse_value.simps) (cases "skip_ws s", simp_all del: parse_simps)
    have cs: "length cs < length s" by (rule skip_ws_Cons_length [OF sk])
    have ccs: "length (c # cs) \<le> length s" using cs by simp
    from a have body:
      "(if c = 0x7B then
            (case skip_ws cs of
               [] \<Rightarrow> None
             | c' # r \<Rightarrow> if c' = 0x7D then Some (JObject [], r) else parse_members [] cs)
          else if c = 0x5B then
            (case skip_ws cs of
               [] \<Rightarrow> None
             | c' # r \<Rightarrow> if c' = 0x5D then Some (JArray [], r) else parse_elements [] cs)
          else if c = 0x22 then
            (case parse_string [] cs of None \<Rightarrow> None | Some (str, r) \<Rightarrow> Some (JString str, r))
          else if prefix (js ''true'') (c # cs) then Some (JBool True, drop 4 (c # cs))
          else if prefix (js ''false'') (c # cs) then Some (JBool False, drop 5 (c # cs))
          else if prefix (js ''null'') (c # cs) then Some (JNull, drop 4 (c # cs))
          else (case parse_number (c # cs) of None \<Rightarrow> None | Some (n, r) \<Rightarrow> Some (JNumber n, r)))
        = Some (v, r)"
      by (subst (asm) parse_value.simps) (simp add: sk del: parse_simps)
    consider (obj) "c = 0x7B" | (arr) "c \<noteq> 0x7B" "c = 0x5B" | (str) "c \<noteq> 0x7B" "c \<noteq> 0x5B" "c = 0x22"
      | (tr) "c \<noteq> 0x7B" "c \<noteq> 0x5B" "c \<noteq> 0x22" "prefix (js ''true'') (c # cs)"
      | (fa) "c \<noteq> 0x7B" "c \<noteq> 0x5B" "c \<noteq> 0x22" "\<not> prefix (js ''true'') (c # cs)"
             "prefix (js ''false'') (c # cs)"
      | (nu) "c \<noteq> 0x7B" "c \<noteq> 0x5B" "c \<noteq> 0x22" "\<not> prefix (js ''true'') (c # cs)"
             "\<not> prefix (js ''false'') (c # cs)" "prefix (js ''null'') (c # cs)"
      | (num) "c \<noteq> 0x7B" "c \<noteq> 0x5B" "c \<noteq> 0x22" "\<not> prefix (js ''true'') (c # cs)"
             "\<not> prefix (js ''false'') (c # cs)" "\<not> prefix (js ''null'') (c # cs)"
      by blast
    then show ?thesis
    proof cases
      case obj
      with body have b: "(case skip_ws cs of
               [] \<Rightarrow> None
             | c' # r \<Rightarrow> if c' = 0x7D then Some (JObject [], r) else parse_members [] cs) = Some (v, r)"
        by (simp del: parse_simps)
      then obtain c' r' where sk': "skip_ws cs = c' # r'" by (cases "skip_ws cs") simp_all
      show ?thesis
      proof (cases "c' = 0x7D")
        case True
        with b sk' have "r = r'" by (simp del: parse_simps)
        with skip_ws_Cons_length [OF sk'] cs show ?thesis by simp
      next
        case False
        with b sk' have "parse_members [] cs = Some (v, r)" by (simp del: parse_simps)
        from IHm [OF cs this] cs show ?thesis by simp
      qed
    next
      case arr
      with body have b: "(case skip_ws cs of
               [] \<Rightarrow> None
             | c' # r \<Rightarrow> if c' = 0x5D then Some (JArray [], r) else parse_elements [] cs) = Some (v, r)"
        by (simp del: parse_simps)
      then obtain c' r' where sk': "skip_ws cs = c' # r'" by (cases "skip_ws cs") simp_all
      show ?thesis
      proof (cases "c' = 0x5D")
        case True
        with b sk' have "r = r'" by (simp del: parse_simps)
        with skip_ws_Cons_length [OF sk'] cs show ?thesis by simp
      next
        case False
        with b sk' have "parse_elements [] cs = Some (v, r)" by (simp del: parse_simps)
        from IHe [OF cs this] cs show ?thesis by simp
      qed
    next
      case str
      with body obtain x where "parse_string [] cs = Some (x, r)"
        by (auto simp del: parse_simps split: option.splits)
      from parse_string_shorter [OF this] cs show ?thesis by simp
    next
      case tr
      with body have "r = drop 4 (c # cs)" by (simp del: parse_simps)
      then show ?thesis using ccs by simp
    next
      case fa
      with body have "r = drop 5 (c # cs)" by (simp del: parse_simps)
      then show ?thesis using ccs by simp
    next
      case nu
      with body have "r = drop 4 (c # cs)" by (simp del: parse_simps)
      then show ?thesis using ccs by simp
    next
      case num
      with body obtain n where "parse_number (c # cs) = Some (n, r)"
        by (auto simp del: parse_simps split: option.splits)
      from parse_number_shorter [OF this] ccs show ?thesis by simp
    qed
  qed
  have elems: "length r < length s" if a: "parse_elements acc s = Some (v, r)" for acc v r
  proof -
    from a obtain v1 r1 where pv: "parse_value s = Some (v1, r1)"
      by (subst (asm) parse_elements.simps) (cases "parse_value s", auto simp del: parse_simps)
    have r1: "length r1 < length s" by (rule val [OF pv])
    from a pv obtain c r' where sk: "skip_ws r1 = c # r'"
      by (subst (asm) parse_elements.simps) (cases "skip_ws r1", auto simp del: parse_simps)
    have r': "length r' < length s" using skip_ws_Cons_length [OF sk] r1 by simp
    from a pv sk r' have b:
      "(if c = 0x2C then parse_elements (v1 # acc) r'
        else if c = 0x5D then Some (JArray (rev (v1 # acc)), r') else None) = Some (v, r)"
      by (subst (asm) parse_elements.simps) (auto simp del: parse_simps split: if_splits)
    show ?thesis
    proof (cases "c = 0x2C")
      case True
      with b have "parse_elements (v1 # acc) r' = Some (v, r)" by (simp del: parse_simps)
      from IHe [OF r' this] r' show ?thesis by simp
    next
      case False
      with b have "r = r'" by (simp del: parse_simps split: if_splits)
      with r' show ?thesis by simp
    qed
  qed
  have membs: "length r < length s" if a: "parse_members acc s = Some (v, r)" for acc v r
  proof -
    from a obtain q cs where sk: "skip_ws s = q # cs"
      by (subst (asm) parse_members.simps) (cases "skip_ws s", simp_all del: parse_simps)
    have cs: "length cs < length s" by (rule skip_ws_Cons_length [OF sk])
    from a sk have q: "q = 0x22"
      by (subst (asm) parse_members.simps) (simp del: parse_simps split: if_splits)
    from a sk q obtain k r0 where ps: "parse_string [] cs = Some (k, r0)"
      by (subst (asm) parse_members.simps) (cases "parse_string [] cs", auto simp del: parse_simps)
    have r0: "length r0 < length s" using parse_string_shorter [OF ps] cs by simp
    from a sk q ps obtain c r1 where sk1: "skip_ws r0 = c # r1"
      by (subst (asm) parse_members.simps) (cases "skip_ws r0", auto simp del: parse_simps)
    have r1: "length r1 < length s" using skip_ws_Cons_length [OF sk1] r0 by simp
    from a sk q ps sk1 r1 have colon: "c = 0x3A"
      by (subst (asm) parse_members.simps) (simp del: parse_simps split: if_splits)
    from a sk q ps sk1 r1 colon obtain v1 r2 where pv: "parse_value r1 = Some (v1, r2)"
      by (subst (asm) parse_members.simps) (cases "parse_value r1", auto simp del: parse_simps)
    have r2: "length r2 < length s" using IHv [OF r1 pv] r1 by simp
    from a sk q ps sk1 r1 colon pv obtain c' r3 where sk2: "skip_ws r2 = c' # r3"
      by (subst (asm) parse_members.simps) (cases "skip_ws r2", auto simp del: parse_simps)
    have r3: "length r3 < length s" using skip_ws_Cons_length [OF sk2] r2 by simp
    from a sk q ps sk1 r1 colon pv sk2 r3 have b:
      "(if c' = 0x2C then parse_members (set_property k v1 acc) r3
        else if c' = 0x7D then Some (JObject (set_property k v1 acc), r3) else None) = Some (v, r)"
      by (subst (asm) parse_members.simps) (auto simp del: parse_simps split: if_splits)
    show ?thesis
    proof (cases "c' = 0x2C")
      case True
      with b have "parse_members (set_property k v1 acc) r3 = Some (v, r)" by (simp del: parse_simps)
      from IHm [OF r3 this] r3 show ?thesis by simp
    next
      case False
      with b have "r = r3" by (simp del: parse_simps split: if_splits)
      with r3 show ?thesis by simp
    qed
  qed
  from val elems membs show ?case by blast
qed


lemma parse_value_shorter: "parse_value s = Some (v, r) \<Longrightarrow> length r < length s"
  using parse_shorter_all [of s] by blast

text \<open>The tests on the length always succeed: the parsers satisfy the equations without them.\<close>

lemma parse_elements_unguarded:
  "parse_elements acc s =
     (case parse_value s of
        None \<Rightarrow> None
      | Some (v, r) \<Rightarrow>
          (case skip_ws r of
             [] \<Rightarrow> None
           | c # r' \<Rightarrow>
               if c = 0x2C then parse_elements (v # acc) r'
               else if c = 0x5D then Some (JArray (rev (v # acc)), r')
               else None))"
proof (cases "parse_value s")
  case None
  then show ?thesis by (subst parse_elements.simps) (simp del: parse_simps)
next
  case (Some vr)
  obtain v r where vr: "vr = (v, r)" by (cases vr)
  have r: "length r < length s" using parse_value_shorter Some vr by blast
  show ?thesis
  proof (cases "skip_ws r")
    case Nil
    with Some vr show ?thesis by (subst parse_elements.simps) (simp del: parse_simps)
  next
    case (Cons c r')
    have "length r' < length s" using skip_ws_Cons_length [OF Cons] r by simp
    with Some vr Cons show ?thesis by (subst parse_elements.simps) (simp del: parse_simps)
  qed
qed

lemma parse_members_unguarded:
  "parse_members acc s =
     (case skip_ws s of
        [] \<Rightarrow> None
      | q # cs \<Rightarrow>
          if q \<noteq> 0x22 then None
          else
            (case parse_string [] cs of
               None \<Rightarrow> None
             | Some (k, r) \<Rightarrow>
                 (case skip_ws r of
                    [] \<Rightarrow> None
                  | c # r1 \<Rightarrow>
                      if c \<noteq> 0x3A then None
                      else
                        (case parse_value r1 of
                           None \<Rightarrow> None
                         | Some (v, r2) \<Rightarrow>
                             (case skip_ws r2 of
                                [] \<Rightarrow> None
                              | c' # r3 \<Rightarrow>
                                  if c' = 0x2C then parse_members (set_property k v acc) r3
                                  else if c' = 0x7D then Some (JObject (set_property k v acc), r3)
                                  else None)))))"
proof (cases "skip_ws s")
  case Nil
  then show ?thesis by (subst parse_members.simps) (simp del: parse_simps)
next
  case sk: (Cons q cs)
  have cs: "length cs < length s" by (rule skip_ws_Cons_length [OF sk])
  show ?thesis
  proof (cases "parse_string [] cs")
    case None
    with sk show ?thesis by (subst parse_members.simps) (simp del: parse_simps)
  next
    case (Some kr)
    obtain k r where kr: "kr = (k, r)" by (cases kr)
    have r: "length r < length s" using parse_string_shorter [of "[]" cs k r] Some kr cs by simp
    show ?thesis
    proof (cases "skip_ws r")
      case Nil
      with sk Some kr show ?thesis by (subst parse_members.simps) (simp del: parse_simps)
    next
      case sk1: (Cons c r1)
      have r1: "length r1 < length s" using skip_ws_Cons_length [OF sk1] r by simp
      show ?thesis
      proof (cases "parse_value r1")
        case None
        with sk Some kr sk1 r1 show ?thesis by (subst parse_members.simps) (simp del: parse_simps)
      next
        case pv: (Some vr)
        obtain v r2 where vr: "vr = (v, r2)" by (cases vr)
        have r2: "length r2 < length s" using parse_value_shorter [of r1 v r2] pv vr r1 by simp
        show ?thesis
        proof (cases "skip_ws r2")
          case Nil
          with sk Some kr sk1 r1 pv vr show ?thesis
            by (subst parse_members.simps) (simp del: parse_simps)
        next
          case sk2: (Cons c' r3)
          have "length r3 < length s" using skip_ws_Cons_length [OF sk2] r2 by simp
          with sk Some kr sk1 r1 pv vr sk2 show ?thesis
            by (subst parse_members.simps) (simp del: parse_simps)
        qed
      qed
    qed
  qed
qed

section \<open>Facts about the string operations\<close>

lemma includes_js_iff: "includes_js s sep \<longleftrightarrow> (\<exists>ps ss. s = ps @ sep @ ss)"
proof (induction s)
  case Nil
  then show ?case by auto
next
  case (Cons c cs)
  show ?case
  proof
    assume "includes_js (c # cs) sep"
    then consider "prefix sep (c # cs)" | "includes_js cs sep" by auto
    then show "\<exists>ps ss. c # cs = ps @ sep @ ss"
    proof cases
      case 1
      then obtain ss where "c # cs = sep @ ss" by (auto simp: prefix_def)
      then have "c # cs = [] @ sep @ ss" by simp
      then show ?thesis by blast
    next
      case 2
      with Cons.IH obtain ps ss where "cs = ps @ sep @ ss" by blast
      then have "c # cs = (c # ps) @ sep @ ss" by simp
      then show ?thesis by blast
    qed
  next
    assume "\<exists>ps ss. c # cs = ps @ sep @ ss"
    then obtain ps ss where eq: "c # cs = ps @ sep @ ss" by blast
    show "includes_js (c # cs) sep"
    proof (cases ps)
      case Nil
      with eq have "prefix sep (c # cs)" by (simp add: prefix_def)
      then show ?thesis by simp
    next
      case (Cons p ps')
      with eq have "cs = ps' @ sep @ ss" by simp
      with Cons.IH have "includes_js cs sep" by blast
      then show ?thesis by simp
    qed
  qed
qed

lemma includes_js_length: "includes_js s sep \<Longrightarrow> length sep \<le> length s"
  unfolding includes_js_iff by auto

lemma includes_js_append: "includes_js a sep \<Longrightarrow> includes_js (a @ b) sep"
  unfolding includes_js_iff by (metis append.assoc)

lemma includes_js_prefix: "prefix a b \<Longrightarrow> includes_js a sep \<Longrightarrow> includes_js b sep"
  by (auto simp: prefix_def includes_js_append)

lemma split_acc_none: "\<not> includes_js s sep \<Longrightarrow> split_acc sep acc s = [rev acc @ s]"
  by (induction s arbitrary: acc) auto

text \<open>
  An occurrence of the separator that starts inside \<open>p # pre\<close> lies within
  \<open>(p # pre) @ butlast sep\<close>: the first occurrence is at the end of \<open>pre\<close> exactly when
  \<open>pre @ butlast sep\<close> holds none.
\<close>

lemma prefix_first_occurrence:
  assumes "prefix sep (p # pre @ sep @ post)"
  shows "includes_js ((p # pre) @ butlast sep) sep"
proof (cases "sep = []")
  case True
  then show ?thesis by simp
next
  case False
  then have sep: "sep = butlast sep @ [last sep]" by simp
  have "p # pre @ sep @ post = ((p # pre) @ butlast sep) @ (last sep # post)"
    using sep by (metis append.assoc append_Cons append_Nil)
  moreover have "length sep \<le> length ((p # pre) @ butlast sep)" by simp
  ultimately have "prefix sep ((p # pre) @ butlast sep)"
    using assms by (metis prefix_length_prefix prefixI)
  then show ?thesis by (cases "(p # pre) @ butlast sep") (auto simp: prefix_def)
qed

lemma split_acc_first:
  "sep \<noteq> [] \<Longrightarrow> \<not> includes_js (pre @ butlast sep) sep \<Longrightarrow>
   split_acc sep acc (pre @ sep @ post) = (rev acc @ pre) # split_acc sep [] post"
proof (induction pre arbitrary: acc)
  case Nil
  then obtain c cs where "sep @ post = c # cs" by (cases sep) auto
  then show ?case using Nil by (cases sep) auto
next
  case (Cons p pre)
  have np: "\<not> prefix sep (p # pre @ sep @ post)"
    using Cons.prems(2) prefix_first_occurrence by blast
  have "\<not> includes_js (pre @ butlast sep) sep"
    using Cons.prems(2) by simp
  with Cons.IH [OF Cons.prems(1), of "p # acc"] np show ?case by simp
qed

lemma first_occurrence_exists:
  "sep \<noteq> [] \<Longrightarrow> includes_js s sep \<Longrightarrow>
   \<exists>pre post. s = pre @ sep @ post \<and> \<not> includes_js (pre @ butlast sep) sep"
proof (induction s)
  case Nil
  then show ?case by simp
next
  case (Cons c cs)
  show ?case
  proof (cases "prefix sep (c # cs)")
    case True
    then obtain post where "c # cs = [] @ sep @ post" by (auto simp: prefix_def)
    moreover have "\<not> includes_js ([] @ butlast sep) sep"
    proof
      assume "includes_js ([] @ butlast sep) sep"
      then have "includes_js (butlast sep) sep" by simp
      then have "length sep \<le> length (butlast sep)" by (rule includes_js_length)
      moreover have "length (butlast sep) < length sep" using Cons.prems(1) by simp
      ultimately show False by linarith
    qed
    ultimately show ?thesis by blast
  next
    case False
    with Cons.prems have "includes_js cs sep" by simp
    with Cons.IH Cons.prems(1) obtain pre post
      where eq: "cs = pre @ sep @ post" and first: "\<not> includes_js (pre @ butlast sep) sep"
      by blast
    have "prefix (c # pre @ butlast sep) (c # cs)"
      using eq Cons.prems(1) by (metis append.assoc append_butlast_last_id prefixI prefix_Cons)
    with False have "\<not> prefix sep (c # pre @ butlast sep)"
      using prefix_order.trans by blast
    with first have "\<not> includes_js ((c # pre) @ butlast sep) sep" by simp
    moreover have "c # cs = (c # pre) @ sep @ post" using eq by simp
    ultimately show ?thesis by blast
  qed
qed

text \<open>Splitting at the sentinel.\<close>

lemma SENTINEL_nonempty: "SENTINEL \<noteq> []"
  by (simp add: SENTINEL_def js_def)

lemma split_js_first:
  "\<not> includes_js (pre @ butlast SENTINEL) SENTINEL \<Longrightarrow>
   split_js (pre @ SENTINEL @ rest) SENTINEL = pre # split_js rest SENTINEL"
  using split_acc_first [OF SENTINEL_nonempty, of pre "[]" rest]
  by (simp add: split_js_def SENTINEL_nonempty)

lemma split_js_none: "\<not> includes_js s SENTINEL \<Longrightarrow> split_js s SENTINEL = [s]"
  using split_acc_none [of s SENTINEL "[]"] by (simp add: split_js_def SENTINEL_nonempty)

lemma split_acc_head: "\<exists>x more. split_acc sep acc s = (rev acc @ x) # more \<and> prefix x s"
proof (induction s arbitrary: acc)
  case Nil
  then show ?case by simp
next
  case (Cons c cs)
  show ?case
  proof (cases "sep \<noteq> [] \<and> prefix sep (c # cs)")
    case True
    then have "split_acc sep acc (c # cs) = (rev acc @ []) # split_acc sep [] (drop (length sep) (c # cs))"
      by simp
    then show ?thesis by (metis prefix_bot.extremum)
  next
    case False
    from Cons.IH [of "c # acc"] obtain x more
      where "split_acc sep (c # acc) cs = (rev (c # acc) @ x) # more" and "prefix x cs" by blast
    with False have "split_acc sep acc (c # cs) = (rev acc @ (c # x)) # more \<and> prefix (c # x) (c # cs)"
      by simp
    then show ?thesis by blast
  qed
qed

lemma split_js_head: "\<exists>x more. split_js s SENTINEL = x # more \<and> prefix x s"
  using split_acc_head [of SENTINEL "[]" s] by (simp add: split_js_def SENTINEL_nonempty)

lemma or_empty_Some: "or_empty (Some s) = s"
  by (simp add: or_empty_def)

section \<open>Facts about the read loop\<close>

lemma length_buffers: "length (buffers d b cs) = length cs"
  by (induction cs arbitrary: d b) (auto split: prod.splits)

lemma buffers_eq_Nil: "buffers d b cs = [] \<longleftrightarrow> cs = []"
  using length_buffers [of d b cs] by (metis length_0_conv)

lemma replace_last_twice: "replace_last m (replace_last m' l) = replace_last m l"
  by (simp add: replace_last_def)

lemma replace_last_snoc: "replace_last m (l @ [x]) = l @ [m]"
  by (simp add: replace_last_def)

text \<open>What the loop does to the state: it shows the buffers that come before the sentinel.\<close>

lemma read_loop_state:
  "snd (read_loop cs e v w) =
     w\<lparr>messages := (if shown (buffers (decoder v) (buffer v) cs) = [] then messages w
                    else replace_last ((botMessage v)\<lparr>msg_text := last (shown (buffers (decoder v) (buffer v) cs))\<rparr>)
                           (messages w)),
       rendered := rendered w @ map (\<lambda>t. replace_last ((botMessage v)\<lparr>msg_text := t\<rparr>) (messages w))
                                  (shown (buffers (decoder v) (buffer v) cs))\<rparr>"
proof (induction cs arbitrary: v w)
  case Nil
  then show ?case by (cases e) (simp_all add: shown_def)
next
  case (Cons c cs)
  obtain decoded d where dec: "decode (decoder v) c = (decoded, d)" by (cases "decode (decoder v) c")
  show ?case
  proof (cases "includes_js (buffer v @ decoded) SENTINEL")
    case True
    then show ?thesis using dec by (simp add: shown_def Let_def)
  next
    case False
    then show ?thesis using dec
      by (simp add: Cons.IH shown_def Let_def setMessages_def replace_last_twice)
  qed
qed

text \<open>What the loop leaves in its variables, or throws.\<close>

lemma read_loop_result:
  "fst (read_loop cs e v w) = r \<Longrightarrow>
     (case detected (buffers (decoder v) (buffer v) cs) of
        Some B \<Rightarrow>
          (\<exists>v'. r = Inr v' \<and> buffer v' = B
              \<and> botMessage v' = (botMessage v)\<lparr>msg_text := or_empty (at_js (split_js B SENTINEL) 0)\<rparr>
              \<and> citationsData v' = or_empty (map_option trim_js (at_js (split_js B SENTINEL) 1)))
      | None \<Rightarrow>
          (case e of
             StreamDone \<Rightarrow>
               (\<exists>v'. r = Inr v' \<and> buffer v' = last (buffer v # buffers (decoder v) (buffer v) cs)
                   \<and> botMessage v' = (if cs = [] then botMessage v
                                      else (botMessage v)\<lparr>msg_text := last (buffers (decoder v) (buffer v) cs)\<rparr>)
                   \<and> citationsData v' = citationsData v)
           | ReadRejected msg \<Rightarrow> r = Inl msg))"
proof (induction cs arbitrary: v w)
  case Nil
  then show ?case by (cases e) (auto simp: detected_def)
next
  case (Cons c cs)
  obtain decoded d where dec: "decode (decoder v) c = (decoded, d)" by (cases "decode (decoder v) c")
  show ?case
  proof (cases "includes_js (buffer v @ decoded) SENTINEL")
    case True
    then show ?thesis using dec Cons.prems by (auto simp: detected_def Let_def)
  next
    case False
    let ?v2 = "v\<lparr>buffer := buffer v @ decoded, decoder := d,
                    botMessage := (botMessage v)\<lparr>msg_text := buffer v @ decoded\<rparr>\<rparr>"
    let ?w2 = "setMessages (replace_last (botMessage ?v2)) w"
    have "fst (read_loop cs e ?v2 ?w2) = r"
      using Cons.prems dec False by (simp add: Let_def)
    from Cons.IH [OF this] show ?thesis using dec False
      by (auto simp: detected_def Let_def buffers_eq_Nil split: option.splits stream_end.splits)
  qed
qed

section \<open>Facts about \<^verbatim>\<open>handleAsk\<close>\<close>

lemma opened_fields:
  "messages (opened p env w) = messages w @ [user_message env w, answer env [] (JArray [])]"
  "rendered (opened p env w) =
     rendered w @ [messages w @ [user_message env w],
                   messages w @ [user_message env w, answer env [] (JArray [])]]"
  "events (opened p env w) = events w @ [SetLoading True, Fetch (ask_request p w)]"
  "loading (opened p env w) = True"
  "question (opened p env w) = question w"
  by (simp_all add: opened_def setMessages_def setLoading_def emit_def)

lemma finalize_eq:
  "citations (botMessage v) = Some (JArray []) \<Longrightarrow>
   finalize v w =
     w\<lparr>messages := replace_last ((botMessage v)\<lparr>citations := Some (final_citations (citationsData v))\<rparr>) (messages w),
       events := events w @ parse_log (citationsData v),
       rendered := rendered w @ [replace_last ((botMessage v)\<lparr>citations := Some (final_citations (citationsData v))\<rparr>) (messages w)]\<rparr>"
  by (cases "botMessage v")
     (auto simp: finalize_def final_citations_def parse_log_def setMessages_def emit_def
           split: option.splits)

lemma handleAsk_failed_request:
  assumes "\<not> falsy (sessionId p)" and "trim_js (question w) \<noteq> []"
    and "apiStream (network env) = Inl msg"
  shows "handleAsk p env w =
     w\<lparr>question := [],
       messages := messages w @ [user_message env w, error_message msg (now_error env)],
       loading := False,
       events := events w @ [SetLoading True, Fetch (ask_request p w),
                             ConsoleError (js ''Error asking question:''),
                             SetLoading False, SetQuestion []],
       rendered := rendered w @ [messages w @ [user_message env w],
                                 messages w @ [user_message env w, error_message msg (now_error env)]]\<rparr>"
  using assms
  by (simp add: handleAsk_def try_block_def catch_block_def setMessages_def setLoading_def
        setQuestion_def emit_def user_message_def ask_request_def Let_def)

lemma handleAsk_no_body:
  assumes "\<not> falsy (sessionId p)" and "trim_js (question w) \<noteq> []"
    and "apiStream (network env) = Inr r" and "body r = None"
  shows "handleAsk p env w =
     w\<lparr>question := [],
       messages := messages w @ [user_message env w, error_message (js ''No response body'') (now_error env)],
       loading := False,
       events := events w @ [SetLoading True, Fetch (ask_request p w),
                             ConsoleError (js ''Error asking question:''),
                             SetLoading False, SetQuestion []],
       rendered := rendered w @ [messages w @ [user_message env w],
                                 messages w @ [user_message env w,
                                               error_message (js ''No response body'') (now_error env)]]\<rparr>"
  using assms
  by (simp add: handleAsk_def try_block_def catch_block_def setMessages_def setLoading_def
        setQuestion_def emit_def user_message_def ask_request_def Let_def)

lemma handleAsk_streaming:
  assumes "\<not> falsy (sessionId p)" and "trim_js (question w) \<noteq> []"
    and "apiStream (network env) = Inr r" and "body r = Some b"
  shows "handleAsk p env w =
     setQuestion [] (setLoading False
       (case read_loop (chunks b) (ending b) (loop_start env) (opened p env w) of
          (Inl msg, w3) \<Rightarrow> catch_block env msg w3
        | (Inr v', w3) \<Rightarrow> finalize v' w3))"
proof -
  let ?w1 = "setLoading True (setMessages (\<lambda>prev. prev @ [user_message env w]) w)"
  have req: "ask_request p ?w1 = ask_request p w"
    by (simp add: ask_request_def setLoading_def setMessages_def emit_def)
  obtain r' w' where rl:
    "read_loop (chunks b) (ending b) (loop_start env) (opened p env w) = (r', w')"
    by (cases "read_loop (chunks b) (ending b) (loop_start env) (opened p env w)")
  have "try_block p env ?w1 =
          (case r' of Inl msg \<Rightarrow> (Inl msg, w') | Inr v' \<Rightarrow> (Inr (), finalize v' w'))"
    using assms(3,4) rl
    unfolding try_block_def Let_def req opened_def loop_start_def answer_def
    by (simp split: sum.splits)
  then show ?thesis
    using assms(1,2) rl
    unfolding handleAsk_def Let_def user_message_def
    by (simp split: sum.splits)
qed


lemma answer_updates:
  "(answer env t c)\<lparr>msg_text := t'\<rparr> = answer env t' c"
  "(answer env t c)\<lparr>citations := Some c'\<rparr> = answer env t c'"
  "citations (answer env t c) = Some c"
  "msg_text (answer env t c) = t"
  by (simp_all add: answer_def)

lemma replace_last_pair: "replace_last m (ms @ [u, t]) = ms @ [u, m]"
  using replace_last_snoc [of m "ms @ [u]" t] by simp

text \<open>The state when the loop is left, in the three ways it can be left.\<close>

lemma loop_state_opened:
  "snd (read_loop cs e (loop_start env) (opened p env w)) =
     (opened p env w)
       \<lparr>messages := messages w @ [user_message env w,
                                  answer env (last ([] # shown (buffers new_TextDecoder [] cs))) (JArray [])],
        rendered := rendered w @ (messages w @ [user_message env w])
                     # map (\<lambda>t. messages w @ [user_message env w, answer env t (JArray [])])
                         ([] # shown (buffers new_TextDecoder [] cs))\<rparr>"
  unfolding read_loop_state
  by (simp add: loop_start_def answer_updates replace_last_pair opened_fields)

lemma handleAsk_detected:
  assumes "\<not> falsy (sessionId p)" and "trim_js (question w) \<noteq> []"
    and "apiStream (network env) = Inr r" and "body r = Some b"
    and "detected (buffers new_TextDecoder [] (chunks b)) = Some B"
  shows "handleAsk p env w =
     w\<lparr>question := [],
       messages := messages w @ [user_message env w,
                    answer env (or_empty (at_js (split_js B SENTINEL) 0))
                      (final_citations (or_empty (map_option trim_js (at_js (split_js B SENTINEL) 1))))],
       loading := False,
       events := events w @ [SetLoading True, Fetch (ask_request p w)]
                  @ parse_log (or_empty (map_option trim_js (at_js (split_js B SENTINEL) 1)))
                  @ [SetLoading False, SetQuestion []],
       rendered := rendered w @ (messages w @ [user_message env w])
                    # map (\<lambda>t. messages w @ [user_message env w, answer env t (JArray [])])
                        ([] # shown (buffers new_TextDecoder [] (chunks b)))
                    @ [messages w @ [user_message env w,
                        answer env (or_empty (at_js (split_js B SENTINEL) 0))
                          (final_citations (or_empty (map_option trim_js (at_js (split_js B SENTINEL) 1))))]]\<rparr>"
proof -
  obtain r' w' where rl:
    "read_loop (chunks b) (ending b) (loop_start env) (opened p env w) = (r', w')"
    by (cases "read_loop (chunks b) (ending b) (loop_start env) (opened p env w)")
  have w': "w' = snd (read_loop (chunks b) (ending b) (loop_start env) (opened p env w))"
    using rl by simp
  have "fst (read_loop (chunks b) (ending b) (loop_start env) (opened p env w)) = r'"
    using rl by simp
  from read_loop_result [OF this] assms(5)
  obtain v' where v': "r' = Inr v'"
      "botMessage v' = answer env (or_empty (at_js (split_js B SENTINEL) 0)) (JArray [])"
      "citationsData v' = or_empty (map_option trim_js (at_js (split_js B SENTINEL) 1))"
    by (auto simp: loop_start_def answer_updates)
  have fin: "handleAsk p env w = setQuestion [] (setLoading False (finalize v' w'))"
    using handleAsk_streaming [OF assms(1-4)] rl v'(1) by simp
  have cit: "citations (botMessage v') = Some (JArray [])"
    using v'(2) by (simp add: answer_updates)
  show ?thesis
    unfolding fin finalize_eq [OF cit] w' loop_state_opened v'(2,3)
    by (simp add: setQuestion_def setLoading_def emit_def opened_fields answer_updates replace_last_pair)
qed


lemma last_buffers: "last (b # buffers d b cs) = b @ decode_all d cs"
  by (induction cs arbitrary: d b) (auto split: prod.splits)

lemma buffers_prefix: "x \<in> set (buffers d b cs) \<Longrightarrow> prefix b x \<and> prefix x (b @ decode_all d cs)"
proof (induction cs arbitrary: d b)
  case Nil
  then show ?case by simp
next
  case (Cons c cs)
  obtain t d' where dec: "decode d c = (t, d')" by (cases "decode d c")
  from Cons.prems dec consider "x = b @ t" | "x \<in> set (buffers d' (b @ t) cs)" by auto
  then show ?case
  proof cases
    case 1
    then show ?thesis using dec by simp
  next
    case 2
    from Cons.IH [OF this] show ?thesis using dec by (auto dest: append_prefixD)
  qed
qed

lemma sorted_buffers: "sorted_wrt prefix (buffers d b cs)"
proof (induction cs arbitrary: d b)
  case Nil
  then show ?case by simp
next
  case (Cons c cs)
  obtain t d' where dec: "decode d c = (t, d')" by (cases "decode d c")
  show ?case using dec Cons.IH [of d' "b @ t"] buffers_prefix [of _ d' "b @ t" cs] by auto
qed

lemma no_sentinel_buffers:
  assumes "\<not> includes_js (decode_all d cs) SENTINEL"
  shows "detected (buffers d [] cs) = None" and "shown (buffers d [] cs) = buffers d [] cs"
proof -
  have "\<not> includes_js x SENTINEL" if "x \<in> set (buffers d [] cs)" for x
    using buffers_prefix [OF that] assms includes_js_prefix by auto
  then show "detected (buffers d [] cs) = None" and "shown (buffers d [] cs) = buffers d [] cs"
    by (auto simp: detected_def shown_def find_None_iff)
qed

lemma handleAsk_completed:
  assumes "\<not> falsy (sessionId p)" and "trim_js (question w) \<noteq> []"
    and "apiStream (network env) = Inr r" and "body r = Some b"
    and "ending b = StreamDone"
    and "\<not> includes_js (decode_all new_TextDecoder (chunks b)) SENTINEL"
  shows "handleAsk p env w =
     w\<lparr>question := [],
       messages := messages w @ [user_message env w,
                    answer env (decode_all new_TextDecoder (chunks b)) (JArray [])],
       loading := False,
       events := events w @ [SetLoading True, Fetch (ask_request p w), SetLoading False, SetQuestion []],
       rendered := rendered w @ (messages w @ [user_message env w])
                    # map (\<lambda>t. messages w @ [user_message env w, answer env t (JArray [])])
                        ([] # buffers new_TextDecoder [] (chunks b))
                    @ [messages w @ [user_message env w,
                        answer env (decode_all new_TextDecoder (chunks b)) (JArray [])]]\<rparr>"
proof -
  note ns = no_sentinel_buffers [OF assms(6)]
  obtain r' w' where rl:
    "read_loop (chunks b) (ending b) (loop_start env) (opened p env w) = (r', w')"
    by (cases "read_loop (chunks b) (ending b) (loop_start env) (opened p env w)")
  have w': "w' = snd (read_loop (chunks b) (ending b) (loop_start env) (opened p env w))"
    using rl by simp
  have "fst (read_loop (chunks b) (ending b) (loop_start env) (opened p env w)) = r'"
    using rl by simp
  from read_loop_result [OF this] ns(1) assms(5)
  obtain v' where v': "r' = Inr v'"
      "botMessage v' = answer env (last ([] # buffers new_TextDecoder [] (chunks b))) (JArray [])"
      "citationsData v' = []"
    by (auto simp: loop_start_def answer_updates buffers_eq_Nil)
  have fin: "handleAsk p env w = setQuestion [] (setLoading False (finalize v' w'))"
    using handleAsk_streaming [OF assms(1-4)] rl v'(1) by simp
  have cit: "citations (botMessage v') = Some (JArray [])"
    using v'(2) by (simp add: answer_updates)
  show ?thesis
    unfolding fin finalize_eq [OF cit] w' loop_state_opened v'(2,3) ns(2) last_buffers
    by (simp add: setQuestion_def setLoading_def emit_def opened_fields answer_updates
          replace_last_pair final_citations_def parse_log_def)
qed

lemma handleAsk_read_failed:
  assumes "\<not> falsy (sessionId p)" and "trim_js (question w) \<noteq> []"
    and "apiStream (network env) = Inr r" and "body r = Some b"
    and "ending b = ReadRejected msg"
    and "\<not> includes_js (decode_all new_TextDecoder (chunks b)) SENTINEL"
  shows "handleAsk p env w =
     w\<lparr>question := [],
       messages := messages w @ [user_message env w,
                    answer env (decode_all new_TextDecoder (chunks b)) (JArray []),
                    error_message msg (now_error env)],
       loading := False,
       events := events w @ [SetLoading True, Fetch (ask_request p w),
                             ConsoleError (js ''Error asking question:''),
                             SetLoading False, SetQuestion []],
       rendered := rendered w @ (messages w @ [user_message env w])
                    # map (\<lambda>t. messages w @ [user_message env w, answer env t (JArray [])])
                        ([] # buffers new_TextDecoder [] (chunks b))
                    @ [messages w @ [user_message env w,
                        answer env (decode_all new_TextDecoder (chunks b)) (JArray []),
                        error_message msg (now_error env)]]\<rparr>"
proof -
  note ns = no_sentinel_buffers [OF assms(6)]
  obtain r' w' where rl:
    "read_loop (chunks b) (ending b) (loop_start env) (opened p env w) = (r', w')"
    by (cases "read_loop (chunks b) (ending b) (loop_start env) (opened p env w)")
  have w': "w' = snd (read_loop (chunks b) (ending b) (loop_start env) (opened p env w))"
    using rl by simp
  have "fst (read_loop (chunks b) (ending b) (loop_start env) (opened p env w)) = r'"
    using rl by simp
  from read_loop_result [OF this] ns(1) assms(5)
  have r': "r' = Inl msg" by (simp add: loop_start_def)
  have fin: "handleAsk p env w = setQuestion [] (setLoading False (catch_block env msg w'))"
    using handleAsk_streaming [OF assms(1-4)] rl r' by simp
  show ?thesis
    unfolding fin w' loop_state_opened ns(2) last_buffers
    by (simp add: setQuestion_def setLoading_def emit_def opened_fields catch_block_def
          setMessages_def)
qed

lemma detected_None_no_sentinel:
  assumes "detected (buffers d [] cs) = None"
  shows "\<not> includes_js (decode_all d cs) SENTINEL"
proof (cases "cs = []")
  case True
  then show ?thesis by (simp add: SENTINEL_def js_def)
next
  case False
  then have "buffers d [] cs \<noteq> []" by (simp add: buffers_eq_Nil)
  then have "last (buffers d [] cs) \<in> set (buffers d [] cs)" by simp
  moreover have "last (buffers d [] cs) = decode_all d cs"
    using last_buffers [of "[]" d cs] False by (simp add: buffers_eq_Nil)
  ultimately show ?thesis using assms by (auto simp: detected_def find_None_iff)
qed

lemma detected_includes: "detected bs = Some B \<Longrightarrow> includes_js B SENTINEL"
  by (auto simp: detected_def find_Some_iff)

text \<open>
  The buffer in which the sentinel is found: the text before the first sentinel is
  \<^verbatim>\<open>parts[0]\<close>, and \<^verbatim>\<open>parts[1]\<close> exists and starts the text after it.
\<close>

lemma detected_parts:
  assumes "detected bs = Some B"
  shows "\<exists>pre rest raw. B = pre @ SENTINEL @ rest \<and> \<not> includes_js (pre @ butlast SENTINEL) SENTINEL
           \<and> prefix raw rest \<and> at_js (split_js B SENTINEL) 0 = Some pre
           \<and> at_js (split_js B SENTINEL) 1 = Some raw"
proof -
  from first_occurrence_exists [OF SENTINEL_nonempty detected_includes [OF assms]]
  obtain pre rest where B: "B = pre @ SENTINEL @ rest"
    and first: "\<not> includes_js (pre @ butlast SENTINEL) SENTINEL" by blast
  from split_js_head [of rest] obtain raw more
    where r: "split_js rest SENTINEL = raw # more" "prefix raw rest" by blast
  have "split_js B SENTINEL = pre # raw # more"
    unfolding B split_js_first [OF first] r(1) ..
  then have "at_js (split_js B SENTINEL) 0 = Some pre" "at_js (split_js B SENTINEL) 1 = Some raw"
    by (simp_all add: at_js_def)
  with B first r(2) show ?thesis by blast
qed

section \<open>Facts about the example runs\<close>

text \<open>Evaluating the decoder on concrete bytes unfolds these definitions.\<close>

lemmas decode_eval = decode_def new_TextDecoder_def utf8_step_def utf8_lead_def decoder_reset_def
  utf16_def ascii_def js_def

lemma example_guards:
  "\<not> falsy (sessionId example_props)" "trim_js (question example_box) \<noteq> []"
  by (simp_all add: falsy_def example_props_def example_box_def trim_js_def is_js_space_def js_def)

lemma example_stream:
  "apiStream (network (example_env cs e)) =
     Inr \<lparr>status = 200, body = Some \<lparr>chunks = cs, ending = e\<rparr>, text_result = Inr []\<rparr>"
  by (simp add: example_env_def apiStream_def ok_def)

lemma example_box_fields:
  "messages example_box = []" "rendered example_box = []" "events example_box = []"
  "loading example_box = False" "question example_box = js ''What is the answer?''"
  by (simp_all add: example_box_def)

lemma example_completed:
  assumes "\<not> includes_js (decode_all new_TextDecoder cs) SENTINEL"
  shows "handleAsk example_props (example_env cs StreamDone) example_box =
     example_box\<lparr>question := [],
       messages := [user_message (example_env cs StreamDone) example_box,
                    answer (example_env cs StreamDone) (decode_all new_TextDecoder cs) (JArray [])],
       loading := False,
       events := [SetLoading True, Fetch (ask_request example_props example_box),
                  SetLoading False, SetQuestion []],
       rendered := [user_message (example_env cs StreamDone) example_box]
                    # map (\<lambda>t. [user_message (example_env cs StreamDone) example_box,
                                  answer (example_env cs StreamDone) t (JArray [])])
                        ([] # buffers new_TextDecoder [] cs)
                    @ [[user_message (example_env cs StreamDone) example_box,
                        answer (example_env cs StreamDone) (decode_all new_TextDecoder cs) (JArray [])]]\<rparr>"
  using handleAsk_completed [OF example_guards example_stream,
          where b = "\<lparr>chunks = cs, ending = StreamDone\<rparr>" and cs1 = cs and e1 = StreamDone] assms
  by (simp add: example_box_fields)

lemma example_detected:
  assumes "detected (buffers new_TextDecoder [] cs) = Some B"
  shows "handleAsk example_props (example_env cs e) example_box =
     example_box\<lparr>question := [],
       messages := [user_message (example_env cs e) example_box,
                    answer (example_env cs e) (or_empty (at_js (split_js B SENTINEL) 0))
                      (final_citations (or_empty (map_option trim_js (at_js (split_js B SENTINEL) 1))))],
       loading := False,
       events := [SetLoading True, Fetch (ask_request example_props example_box)]
                  @ parse_log (or_empty (map_option trim_js (at_js (split_js B SENTINEL) 1)))
                  @ [SetLoading False, SetQuestion []],
       rendered := [user_message (example_env cs e) example_box]
                    # map (\<lambda>t. [user_message (example_env cs e) example_box,
                                  answer (example_env cs e) t (JArray [])])
                        ([] # shown (buffers new_TextDecoder [] cs))
                    @ [[user_message (example_env cs e) example_box,
                        answer (example_env cs e) (or_empty (at_js (split_js B SENTINEL) 0))
                          (final_citations (or_empty (map_option trim_js (at_js (split_js B SENTINEL) 1))))]]\<rparr>"
  using handleAsk_detected [OF example_guards example_stream,
          where b = "\<lparr>chunks = cs, ending = e\<rparr>" and cs1 = cs and e1 = e and B = B] assms
  by (simp add: example_box_fields)

lemma sorted_snapshot_texts:
  "sorted_wrt prefix ([] # buffers d [] cs @ [decode_all d cs])"
  using sorted_buffers [of d "[]" cs] buffers_prefix [of _ d "[]" cs]
  by (auto simp: sorted_wrt_append)

text \<open>
  A euro sign cut in two: the chunk \<open>0xE2\<close> opens a character and completes none, so
  the buffer after it is the buffer before it.
\<close>

lemma euro_buffers:
  "buffers new_TextDecoder [] [[0x61], [0xE2], [0x82, 0xAC]] = [[0x61], [0x61], [0x61, 0x20AC]]"
  "decode_all new_TextDecoder [[0x61], [0xE2], [0x82, 0xAC]] = [0x61, 0x20AC]"
  by (simp_all add: decode_eval)

lemma euro_no_sentinel: "\<not> includes_js [0x61, 0x20AC] SENTINEL"
  by (simp add: SENTINEL_def js_def)

text \<open>Evaluating the string operations and the parser on concrete texts unfolds these.\<close>

lemmas string_eval = js_def SENTINEL_def split_js_def trim_js_def is_js_space_def at_js_def
  or_empty_def

lemmas json_eval = JSON_parse_def skip_ws_def is_json_space_def parse_number_def parse_minus_def
  parse_fraction_def parse_exponent_def exponent_sign_def is_digit_def digits_value_def
  simple_escape_def hex4_def hex_digit_def

text \<open>A run in two chunks, the second of which brings the sentinel and the citations.\<close>

lemma hi_run:
  "handleAsk example_props (example_env [ascii ''Hi'', ascii ''---__CITATIONS__---[1]''] StreamDone) example_box =
     example_box\<lparr>question := [],
       messages := [user_message (example_env [] StreamDone) example_box,
                    answer (example_env [] StreamDone) (js ''Hi'') (JArray [JNumber 1])],
       loading := False,
       events := [SetLoading True, Fetch (ask_request example_props example_box),
                  JsonParse (js ''[1]''), SetLoading False, SetQuestion []],
       rendered := [[user_message (example_env [] StreamDone) example_box],
                    [user_message (example_env [] StreamDone) example_box,
                     answer (example_env [] StreamDone) [] (JArray [])],
                    [user_message (example_env [] StreamDone) example_box,
                     answer (example_env [] StreamDone) (js ''Hi'') (JArray [])],
                    [user_message (example_env [] StreamDone) example_box,
                     answer (example_env [] StreamDone) (js ''Hi'') (JArray [JNumber 1])]]\<rparr>"
proof -
  have bs: "buffers new_TextDecoder [] [ascii ''Hi'', ascii ''---__CITATIONS__---[1]''] =
              [js ''Hi'', js ''Hi---__CITATIONS__---[1]'']"
    by (simp add: decode_eval)
  have det: "detected (buffers new_TextDecoder [] [ascii ''Hi'', ascii ''---__CITATIONS__---[1]'']) =
              Some (js ''Hi---__CITATIONS__---[1]'')"
    unfolding bs by (simp add: detected_def js_def SENTINEL_def)
  have sh: "shown [js ''Hi'', js ''Hi---__CITATIONS__---[1]''] = [js ''Hi'']"
    by (simp add: shown_def js_def SENTINEL_def)
  have parts: "split_js (js ''Hi---__CITATIONS__---[1]'') SENTINEL = [js ''Hi'', js ''[1]'']"
    by (simp add: string_eval)
  have payload: "trim_js (js ''[1]'') = js ''[1]''"
    by (simp add: string_eval)
  have parsed: "JSON_parse (js ''[1]'') = Some (JArray [JNumber 1])"
    by (simp add: json_eval js_def)
  have ne: "js ''[1]'' \<noteq> []" "js ''Hi'' \<noteq> []" by (simp_all add: js_def)
  have envs: "user_message (example_env [ascii ''Hi'', ascii ''---__CITATIONS__---[1]''] StreamDone) example_box
                = user_message (example_env [] StreamDone) example_box"
     "\<And>t c. answer (example_env [ascii ''Hi'', ascii ''---__CITATIONS__---[1]''] StreamDone) t c
                = answer (example_env [] StreamDone) t c"
    by (simp_all add: user_message_def answer_def example_env_def)
  show ?thesis
    unfolding example_detected [OF det] bs sh parts
    by (simp add: at_js_def or_empty_def payload parsed ne final_citations_def parse_log_def envs)
qed

lemma example_env_fields:
  "user_message (example_env cs e) example_box = example_question"
  "answer (example_env cs e) t c = example_answer t c"
  "now_error (example_env cs e) = 3"
  by (simp_all add: user_message_def answer_def example_env_def example_question_def
        example_answer_def example_box_def)

lemma single_chunk_detected:
  assumes "decode new_TextDecoder chunk = (B, d)" and "includes_js B SENTINEL"
  shows "detected (buffers new_TextDecoder [] [chunk]) = Some B"
    and "shown (buffers new_TextDecoder [] [chunk]) = []"
  using assms by (simp_all add: detected_def shown_def)

text \<open>The run on the example of the specification, in one chunk.\<close>

lemma answer_42_parts:
  "split_js (js answer_42) SENTINEL =
     [js ''The answer is 42.'', js ''[{\"source\":\"doc.pdf\",\"page\":3,\"preview\":\"...\"}]'']"
  by (simp add: answer_42_def string_eval)

lemma answer_42_payload:
  "trim_js (js ''[{\"source\":\"doc.pdf\",\"page\":3,\"preview\":\"...\"}]'') =
     js ''[{\"source\":\"doc.pdf\",\"page\":3,\"preview\":\"...\"}]''"
  "js ''[{\"source\":\"doc.pdf\",\"page\":3,\"preview\":\"...\"}]'' \<noteq> []"
  by (simp_all add: string_eval)

lemma answer_42_parsed:
  "JSON_parse (js ''[{\"source\":\"doc.pdf\",\"page\":3,\"preview\":\"...\"}]'') =
     Some (JArray [doc_citation])"
  by (simp add: json_eval js_def doc_citation_def)

lemma answer_42_single:
  "handleAsk example_props (example_env [ascii answer_42] StreamDone) example_box =
     example_box\<lparr>question := [],
       messages := [example_question,
                    example_answer (js ''The answer is 42.'') (JArray [doc_citation])],
       loading := False,
       events := [SetLoading True, Fetch (ask_request example_props example_box),
                  JsonParse (js ''[{\"source\":\"doc.pdf\",\"page\":3,\"preview\":\"...\"}]''),
                  SetLoading False, SetQuestion []],
       rendered := [[example_question],
                    [example_question,
                     example_answer [] (JArray [])],
                    [example_question,
                     example_answer (js ''The answer is 42.'')
                       (JArray [doc_citation])]]\<rparr>"
proof -
  have bs: "buffers new_TextDecoder [] [ascii answer_42] = [js answer_42]"
    by (simp add: decode_eval answer_42_def)
  have inc: "includes_js (js answer_42) SENTINEL"
    by (simp add: answer_42_def js_def SENTINEL_def)
  have det: "detected (buffers new_TextDecoder [] [ascii answer_42]) = Some (js answer_42)"
    unfolding bs using inc by (simp add: detected_def)
  have sh: "shown [js answer_42] = []"
    using inc by (simp add: shown_def)
  show ?thesis
    unfolding example_detected [OF det] bs sh answer_42_parts
    by (simp add: at_js_def or_empty_def answer_42_payload answer_42_parsed final_citations_def
          parse_log_def example_env_fields)
qed

section \<open>The guard of \<^verbatim>\<open>handleAsk\<close>\<close>

text \<open>
  C9.  When the session identifier is absent (null, undefined or the empty string) or the
  question is empty or only white space, \<^verbatim>\<open>handleAsk\<close> returns at once: the message
  list is the one it found, nothing is rendered, the loading flag and the question are
  untouched, and no request is made; the only thing that happens, for a missing session,
  is the alert.
\<close>

theorem guard_returns_unchanged:
  assumes "falsy (sessionId p) \<or> trim_js (question w) = []"
  shows "messages (handleAsk p env w) = messages w
       \<and> rendered (handleAsk p env w) = rendered w
       \<and> loading (handleAsk p env w) = loading w
       \<and> question (handleAsk p env w) = question w
       \<and> events (handleAsk p env w) =
           events w @ (if falsy (sessionId p)
                       then [Alert (js ''Please upload PDFs or load a session first!'')] else [])"
  using assms by (auto simp: handleAsk_def emit_def)

theorem guard_returns_unchanged_witness:
  "trim_js (question (example_box\<lparr>question := js ''   ''\<rparr>)) = []
   \<and> messages (handleAsk example_props (example_env [] StreamDone) (example_box\<lparr>question := js ''   ''\<rparr>)) = []
   \<and> loading (handleAsk example_props (example_env [] StreamDone) (example_box\<lparr>question := js ''   ''\<rparr>)) = False
   \<and> events (handleAsk example_props (example_env [] StreamDone) (example_box\<lparr>question := js ''   ''\<rparr>)) = []
   \<and> falsy (sessionId (example_props\<lparr>sessionId := None\<rparr>))
   \<and> messages (handleAsk (example_props\<lparr>sessionId := None\<rparr>) (example_env [] StreamDone) example_box) = []
   \<and> events (handleAsk (example_props\<lparr>sessionId := None\<rparr>) (example_env [] StreamDone) example_box) =
       [Alert (js ''Please upload PDFs or load a session first!'')]"
proof -
  have blank: "trim_js (question (example_box\<lparr>question := js ''   ''\<rparr>)) = []"
    by (simp add: example_box_def trim_js_def is_js_space_def js_def)
  have nosession: "falsy (sessionId (example_props\<lparr>sessionId := None\<rparr>))"
    by (simp add: falsy_def)
  have present: "\<not> falsy (sessionId example_props)"
    by (simp add: falsy_def example_props_def js_def)
  from guard_returns_unchanged
         [where p = example_props and env = "example_env [] StreamDone"
            and w = "example_box\<lparr>question := js ''   ''\<rparr>"]
       guard_returns_unchanged
         [where p = "example_props\<lparr>sessionId := None\<rparr>" and env = "example_env [] StreamDone"
            and w = example_box]
       blank nosession present
  show ?thesis by (simp add: example_box_def)
qed

section \<open>Streams without the sentinel\<close>

text \<open>
  C6.  When no sentinel appears in the text of the chunks and the stream ends with
  \<^verbatim>\<open>done\<close>, the answer of the final snapshot has the whole accumulated decoded text,
  that is the buffer at the end of the loop, and an empty citation list; that snapshot
  is the last one rendered.
\<close>

theorem no_sentinel_final_snapshot:
  assumes "\<not> falsy (sessionId p)" and "trim_js (question w) \<noteq> []"
    and "apiStream (network env) = Inr r" and "body r = Some b"
    and "ending b = StreamDone"
    and "\<not> includes_js (decode_all new_TextDecoder (chunks b)) SENTINEL"
  shows "messages (handleAsk p env w) =
           messages w @ [user_message env w,
                         answer env (decode_all new_TextDecoder (chunks b)) (JArray [])]
       \<and> last (rendered (handleAsk p env w)) = messages (handleAsk p env w)"
  unfolding handleAsk_completed [OF assms] by simp

theorem no_sentinel_final_snapshot_witness:
  "messages (handleAsk example_props (example_env [ascii ''Hello '', ascii ''world''] StreamDone) example_box) =
     [user_message (example_env [ascii ''Hello '', ascii ''world''] StreamDone) example_box,
      answer (example_env [ascii ''Hello '', ascii ''world''] StreamDone) (js ''Hello world'') (JArray [])]"
proof -
  let ?b = "\<lparr>chunks = [ascii ''Hello '', ascii ''world''], ending = StreamDone\<rparr>"
  have dtext: "decode_all new_TextDecoder [ascii ''Hello '', ascii ''world''] = js ''Hello world''"
    by (simp add: decode_eval)
  have none: "\<not> includes_js (decode_all new_TextDecoder (chunks ?b)) SENTINEL"
    using dtext by (simp add: js_def SENTINEL_def del: decode_all.simps)
  from no_sentinel_final_snapshot [OF example_guards example_stream _ _ none]
  show ?thesis by (simp add: dtext example_box_fields del: decode_all.simps)
qed

text \<open>
  C3, as the code has it.  When no sentinel appears in the text of the chunks, the
  snapshots rendered after the message of the user are the answer with the empty text,
  then with the buffer after each chunk, then the final message list, whose answer has
  the whole text.  Each of these texts is a prefix of every later one, so the length of
  the text never decreases.  It need not increase: a chunk that completes no character
  repeats the text before it.
\<close>

theorem snapshots_grow_by_prefix:
  assumes "\<not> falsy (sessionId p)" and "trim_js (question w) \<noteq> []"
    and "apiStream (network env) = Inr r" and "body r = Some b"
    and "\<not> includes_js (decode_all new_TextDecoder (chunks b)) SENTINEL"
  shows "rendered (handleAsk p env w) =
           rendered w @ (messages w @ [user_message env w])
             # map (\<lambda>t. messages w @ [user_message env w, answer env t (JArray [])])
                 ([] # buffers new_TextDecoder [] (chunks b))
             @ [messages (handleAsk p env w)]
       \<and> take (length (messages w) + 2) (messages (handleAsk p env w)) =
           messages w @ [user_message env w,
                         answer env (decode_all new_TextDecoder (chunks b)) (JArray [])]
       \<and> sorted_wrt prefix
           ([] # buffers new_TextDecoder [] (chunks b) @ [decode_all new_TextDecoder (chunks b)])
       \<and> sorted_wrt (\<lambda>s t. length s \<le> length t)
           ([] # buffers new_TextDecoder [] (chunks b) @ [decode_all new_TextDecoder (chunks b)])"
proof -
  have run: "rendered (handleAsk p env w) =
           rendered w @ (messages w @ [user_message env w])
             # map (\<lambda>t. messages w @ [user_message env w, answer env t (JArray [])])
                 ([] # buffers new_TextDecoder [] (chunks b))
             @ [messages (handleAsk p env w)]
       \<and> take (length (messages w) + 2) (messages (handleAsk p env w)) =
           messages w @ [user_message env w,
                         answer env (decode_all new_TextDecoder (chunks b)) (JArray [])]"
  proof (cases "ending b")
    case StreamDone
    show ?thesis unfolding handleAsk_completed [OF assms(1-4) StreamDone assms(5)] by simp
  next
    case (ReadRejected msg)
    show ?thesis unfolding handleAsk_read_failed [OF assms(1-4) ReadRejected assms(5)] by simp
  qed
  have pre: "sorted_wrt prefix
           ([] # buffers new_TextDecoder [] (chunks b) @ [decode_all new_TextDecoder (chunks b)])"
    by (rule sorted_snapshot_texts)
  have "sorted_wrt (\<lambda>s t. length s \<le> length t)
           ([] # buffers new_TextDecoder [] (chunks b) @ [decode_all new_TextDecoder (chunks b)])"
    by (rule sorted_wrt_mono_rel [OF _ pre]) (simp add: prefix_length_le)
  with run pre show ?thesis by blast
qed

theorem snapshots_grow_by_prefix_witness:
  "rendered (handleAsk example_props (example_env [[0x61], [0xE2], [0x82, 0xAC]] StreamDone) example_box) =
     map (\<lambda>ts. user_message (example_env [[0x61], [0xE2], [0x82, 0xAC]] StreamDone) example_box
               # map (\<lambda>t. answer (example_env [[0x61], [0xE2], [0x82, 0xAC]] StreamDone) t (JArray [])) ts)
       [[], [[]], [[0x61]], [[0x61]], [[0x61, 0x20AC]], [[0x61, 0x20AC]]]
   \<and> sorted_wrt prefix [[], [0x61], [0x61], [0x61, 0x20AC], [0x61, 0x20AC :: code_unit]]"
proof -
  let ?b = "\<lparr>chunks = [[0x61], [0xE2], [0x82, 0xAC]], ending = StreamDone\<rparr>"
  have none: "\<not> includes_js (decode_all new_TextDecoder (chunks ?b)) SENTINEL"
    using euro_no_sentinel by (simp add: euro_buffers del: decode_all.simps)
  have none': "\<not> includes_js (decode_all new_TextDecoder [[0x61], [0xE2], [0x82, 0xAC]]) SENTINEL"
    using euro_no_sentinel by (simp add: euro_buffers del: decode_all.simps)
  have fin: "messages (handleAsk example_props (example_env [[0x61], [0xE2], [0x82, 0xAC]] StreamDone) example_box) =
     [user_message (example_env [[0x61], [0xE2], [0x82, 0xAC]] StreamDone) example_box,
      answer (example_env [[0x61], [0xE2], [0x82, 0xAC]] StreamDone) [0x61, 0x20AC] (JArray [])]"
    unfolding example_completed [OF none']
    by (simp add: euro_buffers del: decode_all.simps)
  from snapshots_grow_by_prefix [OF example_guards example_stream _ none]
  show ?thesis
    by (simp add: fin euro_buffers example_box_fields del: decode_all.simps buffers.simps)
qed

text \<open>
  C3, as stated, fails.  The chunks \<open>a\<close>, \<open>0xE2\<close>, \<open>0x82 0xAC\<close> hold no sentinel; of
  the six message lists rendered, those at positions 2 and 3 are snapshots made in the
  loop, for the first and the second chunk, and both have the text \<open>a\<close>: the length did
  not strictly increase.
\<close>

theorem strict_growth_counterexample:
  "\<not> includes_js (decode_all new_TextDecoder [[0x61], [0xE2], [0x82, 0xAC]]) SENTINEL
   \<and> length (rendered (handleAsk example_props (example_env [[0x61], [0xE2], [0x82, 0xAC]] StreamDone) example_box)) = 6
   \<and> msg_text (last (rendered (handleAsk example_props (example_env [[0x61], [0xE2], [0x82, 0xAC]] StreamDone) example_box) ! 2)) = [0x61]
   \<and> msg_text (last (rendered (handleAsk example_props (example_env [[0x61], [0xE2], [0x82, 0xAC]] StreamDone) example_box) ! 3)) = [0x61]
   \<and> \<not> length (msg_text (last (rendered (handleAsk example_props (example_env [[0x61], [0xE2], [0x82, 0xAC]] StreamDone) example_box) ! 2)))
        < length (msg_text (last (rendered (handleAsk example_props (example_env [[0x61], [0xE2], [0x82, 0xAC]] StreamDone) example_box) ! 3)))"
proof -
  have none: "\<not> includes_js (decode_all new_TextDecoder [[0x61], [0xE2], [0x82, 0xAC]]) SENTINEL"
    using euro_no_sentinel by (simp add: euro_buffers del: decode_all.simps)
  show ?thesis
    unfolding example_completed [OF none]
    using none
    by (simp add: euro_buffers answer_def del: decode_all.simps buffers.simps)
qed

section \<open>Failures of the transport\<close>



section \<open>The citations of the answer\<close>

text \<open>
  C8.  Of the message lists that a call of \<^verbatim>\<open>handleAsk\<close> renders, every one but the
  last is the list it found followed by the message of the user, alone or with the answer
  carrying the empty citation list: the citations are empty from the creation of the
  answer through every snapshot of the loop.  Only the last list rendered, the one of
  \<open>finalize\<close> after the loop, can carry other citations, and nothing touches the messages
  after it: the message list at the end is the last one rendered.
\<close>

theorem citations_empty_until_final:
  "(\<forall>ms \<in> set (butlast (drop (length (rendered w)) (rendered (handleAsk p env w)))).
      ms = messages w @ [user_message env w]
      \<or> (\<exists>t. ms = messages w @ [user_message env w, answer env t (JArray [])]))
   \<and> messages (handleAsk p env w) =
       last (messages w # drop (length (rendered w)) (rendered (handleAsk p env w)))"
proof (cases "falsy (sessionId p) \<or> trim_js (question w) = []")
  case True
  then show ?thesis by (auto simp: handleAsk_def emit_def)
next
  case False
  then have g: "\<not> falsy (sessionId p)" "trim_js (question w) \<noteq> []" by simp_all
  show ?thesis
  proof (cases "apiStream (network env)")
    case (Inl msg)
    show ?thesis unfolding handleAsk_failed_request [OF g Inl] by simp
  next
    case (Inr r)
    show ?thesis
    proof (cases "body r")
      case None
      show ?thesis unfolding handleAsk_no_body [OF g Inr None] by simp
    next
      case (Some b)
      show ?thesis
      proof (cases "detected (buffers new_TextDecoder [] (chunks b))")
        case (Some B)
        show ?thesis unfolding handleAsk_detected [OF g Inr \<open>body r = Some b\<close> Some]
          by (auto simp: butlast_append)
      next
        case None
        note ns = detected_None_no_sentinel [OF None]
        show ?thesis
        proof (cases "ending b")
          case StreamDone
          show ?thesis unfolding handleAsk_completed [OF g Inr \<open>body r = Some b\<close> StreamDone ns]
            by (auto simp: butlast_append)
        next
          case (ReadRejected msg)
          show ?thesis unfolding handleAsk_read_failed [OF g Inr \<open>body r = Some b\<close> ReadRejected ns]
            by (auto simp: butlast_append)
        qed
      qed
    qed
  qed
qed

theorem citations_empty_until_final_witness:
  "[user_message (example_env [] StreamDone) example_box,
    answer (example_env [] StreamDone) (js ''Hi'') (JArray [])]
     \<in> set (butlast (drop (length (rendered example_box))
           (rendered (handleAsk example_props
              (example_env [ascii ''Hi'', ascii ''---__CITATIONS__---[1]''] StreamDone) example_box))))
   \<and> (\<exists>t. [user_message (example_env [] StreamDone) example_box,
             answer (example_env [] StreamDone) (js ''Hi'') (JArray [])] =
            messages example_box
              @ [user_message (example_env [ascii ''Hi'', ascii ''---__CITATIONS__---[1]''] StreamDone) example_box,
                 answer (example_env [ascii ''Hi'', ascii ''---__CITATIONS__---[1]''] StreamDone) t (JArray [])])
   \<and> messages (handleAsk example_props
         (example_env [ascii ''Hi'', ascii ''---__CITATIONS__---[1]''] StreamDone) example_box) =
       [user_message (example_env [] StreamDone) example_box,
        answer (example_env [] StreamDone) (js ''Hi'') (JArray [JNumber 1])]"
proof -
  let ?E = "example_env [ascii ''Hi'', ascii ''---__CITATIONS__---[1]''] StreamDone"
  let ?ms = "[user_message (example_env [] StreamDone) example_box,
              answer (example_env [] StreamDone) (js ''Hi'') (JArray [])]"
  have mem: "?ms \<in> set (butlast (drop (length (rendered example_box))
                (rendered (handleAsk example_props ?E example_box))))"
    unfolding hi_run by (simp add: example_box_fields)
  have two: "?ms \<noteq> messages example_box @ [user_message ?E example_box]"
    by (simp add: example_box_fields)
  note all = citations_empty_until_final [of example_box example_props ?E]
  from bspec [OF conjunct1 [OF all] mem] two
  have ex: "\<exists>t. ?ms = messages example_box
              @ [user_message ?E example_box, answer ?E t (JArray [])]"
    by blast
  have "messages (handleAsk example_props ?E example_box) =
          last (messages example_box # drop (length (rendered example_box))
                 (rendered (handleAsk example_props ?E example_box)))"
    by (rule conjunct2 [OF all])
  then have fin: "messages (handleAsk example_props ?E example_box) =
       [user_message (example_env [] StreamDone) example_box,
        answer (example_env [] StreamDone) (js ''Hi'') (JArray [JNumber 1])]"
    unfolding hi_run by (simp add: example_box_fields)
  from mem ex fin show ?thesis by blast
qed

section \<open>Streams with the sentinel\<close>

text \<open>
  C2.  For the response
  \<^verbatim>\<open>The answer is 42.---__CITATIONS__---[{"source":"doc.pdf","page":3,"preview":"..."}]\<close>
  in one chunk, the message list at the end, which is the last one rendered, has the
  answer with the text \<^verbatim>\<open>The answer is 42.\<close> and the one citation with source
  \<^verbatim>\<open>doc.pdf\<close>, page 3 and preview \<^verbatim>\<open>...\<close>.
\<close>

theorem sentinel_split_single_chunk:
  "messages (handleAsk example_props (example_env [ascii answer_42] StreamDone) example_box) =
     [example_question,
      example_answer (js ''The answer is 42.'')
        (JArray [JObject [(js ''source'', JString (js ''doc.pdf'')), (js ''page'', JNumber 3),
                          (js ''preview'', JString (js ''...''))]])]
   \<and> last (rendered (handleAsk example_props (example_env [ascii answer_42] StreamDone) example_box)) =
       messages (handleAsk example_props (example_env [ascii answer_42] StreamDone) example_box)"
  unfolding answer_42_single by (simp add: example_env_fields doc_citation_def)

text \<open>
  C1 does not hold of the code.  The loop is left at the first chunk whose buffer holds
  the sentinel, and nothing is read after it: the same response cut inside the citation
  payload ends with the text before the sentinel and no citation, the part of the payload
  received failing to parse, where the response in one chunk ends with its citation.  Cut
  inside the sentinel, the response ends as it does in one chunk: the buffer is kept
  across chunks, and the whole payload comes with the chunk that completes the sentinel.
\<close>

theorem citations_cut_at_chunk_boundary:
  "''The answer is 42.---__CITATIONS__---[{\"source\":\"doc.pdf\",'' @ ''\"page\":3,\"preview\":\"...\"}]'' = answer_42
   \<and> messages (handleAsk example_props (example_env [ascii answer_42] StreamDone) example_box) =
       [example_question, example_answer (js ''The answer is 42.'') (JArray [doc_citation])]
   \<and> messages (handleAsk example_props
         (example_env [ascii ''The answer is 42.---__CITATIONS__---[{\"source\":\"doc.pdf\",'',
                       ascii ''\"page\":3,\"preview\":\"...\"}]''] StreamDone) example_box) =
       [example_question, example_answer (js ''The answer is 42.'') (JArray [])]
   \<and> messages (handleAsk example_props
         (example_env [ascii ''The answer is 42.---__CITA'',
                       ascii ''TIONS__---[{\"source\":\"doc.pdf\",\"page\":3,\"preview\":\"...\"}]''] StreamDone)
         example_box) =
       [example_question, example_answer (js ''The answer is 42.'') (JArray [doc_citation])]"
proof -
  let ?d1 = "''The answer is 42.---__CITA''"
  let ?d2 = "''TIONS__---[{\"source\":\"doc.pdf\",\"page\":3,\"preview\":\"...\"}]''"
  have dbs: "buffers new_TextDecoder [] [ascii ?d1, ascii ?d2] = [js ?d1, js answer_42]"
    by (simp add: decode_eval answer_42_def)
  have dno: "\<not> includes_js (js ?d1) SENTINEL"
    by (simp add: js_def SENTINEL_def)
  have dinc: "includes_js (js answer_42) SENTINEL"
    by (simp add: answer_42_def js_def SENTINEL_def)
  have ddet: "detected (buffers new_TextDecoder [] [ascii ?d1, ascii ?d2]) = Some (js answer_42)"
    unfolding dbs using dno dinc by (simp add: detected_def)
  have dsh: "shown [js ?d1, js answer_42] = [js ?d1]"
    using dno dinc by (simp add: shown_def)
  have straddled: "messages (handleAsk example_props (example_env [ascii ?d1, ascii ?d2] StreamDone) example_box) =
       [example_question, example_answer (js ''The answer is 42.'') (JArray [doc_citation])]"
    unfolding example_detected [OF ddet] dbs dsh answer_42_parts
    by (simp add: at_js_def or_empty_def answer_42_payload answer_42_parsed final_citations_def
          example_env_fields)
  let ?c1 = "''The answer is 42.---__CITATIONS__---[{\"source\":\"doc.pdf\",''"
  let ?c2 = "''\"page\":3,\"preview\":\"...\"}]''"
  have bs: "buffers new_TextDecoder [] [ascii ?c1, ascii ?c2] = [js ?c1, js answer_42]"
    by (simp add: decode_eval answer_42_def)
  have inc: "includes_js (js ?c1) SENTINEL"
    by (simp add: js_def SENTINEL_def)
  have det: "detected (buffers new_TextDecoder [] [ascii ?c1, ascii ?c2]) = Some (js ?c1)"
    unfolding bs using inc by (simp add: detected_def)
  have sh: "shown [js ?c1, js answer_42] = []"
    using inc by (simp add: shown_def)
  have parts: "split_js (js ?c1) SENTINEL = [js ''The answer is 42.'', js ''[{\"source\":\"doc.pdf\",'']"
    by (simp add: string_eval)
  have payload: "trim_js (js ''[{\"source\":\"doc.pdf\",'') = js ''[{\"source\":\"doc.pdf\",''"
    "js ''[{\"source\":\"doc.pdf\",'' \<noteq> []"
    by (simp_all add: string_eval)
  have parsed: "JSON_parse (js ''[{\"source\":\"doc.pdf\",'') = None"
    by (simp add: json_eval js_def)
  have cut: "messages (handleAsk example_props (example_env [ascii ?c1, ascii ?c2] StreamDone) example_box) =
       [example_question, example_answer (js ''The answer is 42.'') (JArray [])]"
    unfolding example_detected [OF det] bs sh parts
    by (simp add: at_js_def or_empty_def payload parsed final_citations_def example_env_fields)
  have whole: "messages (handleAsk example_props (example_env [ascii answer_42] StreamDone) example_box) =
       [example_question, example_answer (js ''The answer is 42.'') (JArray [doc_citation])]"
    unfolding answer_42_single by simp
  have "?c1 @ ?c2 = answer_42" by (simp add: answer_42_def)
  with whole cut straddled show ?thesis by blast
qed

text \<open>
  C10.  When the sentinel is found in the buffer \<open>B\<close>, the text taken as payload is
  \<^verbatim>\<open>parts[1]\<close>, which starts the text after the first sentinel; it is trimmed, and
  \<^verbatim>\<open>JSON.parse\<close> is called once, on the trimmed text, if that is not empty, and not at all
  if it is empty, in which case the answer ends with the empty citation list.
\<close>

theorem payload_trimmed_before_parse:
  assumes "\<not> falsy (sessionId p)" and "trim_js (question w) \<noteq> []"
    and "apiStream (network env) = Inr r" and "body r = Some b"
    and "detected (buffers new_TextDecoder [] (chunks b)) = Some B"
  shows "\<exists>pre rest raw.
           B = pre @ SENTINEL @ rest \<and> \<not> includes_js (pre @ butlast SENTINEL) SENTINEL
         \<and> prefix raw rest
         \<and> at_js (split_js B SENTINEL) 0 = Some pre
         \<and> at_js (split_js B SENTINEL) 1 = Some raw
         \<and> events (handleAsk p env w) =
             events w @ [SetLoading True, Fetch (ask_request p w)]
               @ (if trim_js raw = [] then []
                  else JsonParse (trim_js raw)
                         # (case JSON_parse (trim_js raw) of
                              Some c \<Rightarrow> []
                            | None \<Rightarrow> [ConsoleError (js ''Failed to parse citations'')]))
               @ [SetLoading False, SetQuestion []]
         \<and> (trim_js raw = [] \<longrightarrow>
              messages (handleAsk p env w) = messages w @ [user_message env w, answer env pre (JArray [])])"
proof -
  from detected_parts [OF assms(5)] obtain pre rest raw
    where B: "B = pre @ SENTINEL @ rest" and raw: "prefix raw rest"
      and first: "\<not> includes_js (pre @ butlast SENTINEL) SENTINEL"
      and p0: "at_js (split_js B SENTINEL) 0 = Some pre"
      and p1: "at_js (split_js B SENTINEL) 1 = Some raw"
    by blast
  note run = handleAsk_detected [OF assms]
  have ev: "events (handleAsk p env w) =
             events w @ [SetLoading True, Fetch (ask_request p w)]
               @ (if trim_js raw = [] then []
                  else JsonParse (trim_js raw)
                         # (case JSON_parse (trim_js raw) of
                              Some c \<Rightarrow> []
                            | None \<Rightarrow> [ConsoleError (js ''Failed to parse citations'')]))
               @ [SetLoading False, SetQuestion []]"
    unfolding run p1 by (simp add: or_empty_Some parse_log_def)
  have ms: "trim_js raw = [] \<longrightarrow>
              messages (handleAsk p env w) = messages w @ [user_message env w, answer env pre (JArray [])]"
    unfolding run p0 p1 by (simp add: or_empty_Some final_citations_def)
  from B first raw p0 p1 ev ms show ?thesis by blast
qed

theorem payload_trimmed_before_parse_witness:
  "events (handleAsk example_props (example_env [ascii ''Done.---__CITATIONS__---   ''] StreamDone) example_box) =
     [SetLoading True, Fetch (ask_request example_props example_box), SetLoading False, SetQuestion []]
   \<and> messages (handleAsk example_props (example_env [ascii ''Done.---__CITATIONS__---   ''] StreamDone) example_box) =
     [example_question, example_answer (js ''Done.'') (JArray [])]"
proof -
  let ?E = "example_env [ascii ''Done.---__CITATIONS__---   ''] StreamDone"
  have dec: "decode new_TextDecoder (ascii ''Done.---__CITATIONS__---   '') =
               (js ''Done.---__CITATIONS__---   '', new_TextDecoder\<lparr>bom_seen := True\<rparr>)"
    by (simp add: decode_eval)
  have inc: "includes_js (js ''Done.---__CITATIONS__---   '') SENTINEL"
    by (simp add: js_def SENTINEL_def)
  have det: "detected (buffers new_TextDecoder []
               (chunks \<lparr>chunks = [ascii ''Done.---__CITATIONS__---   ''], ending = StreamDone\<rparr>)) =
             Some (js ''Done.---__CITATIONS__---   '')"
    using single_chunk_detected(1) [OF dec inc] by simp
  have parts: "split_js (js ''Done.---__CITATIONS__---   '') SENTINEL = [js ''Done.'', js ''   '']"
    by (simp add: string_eval)
  have blank: "trim_js (js ''   '') = []"
    by (simp add: string_eval)
  from payload_trimmed_before_parse [OF example_guards example_stream _ det]
  obtain pre rest raw
    where "at_js (split_js (js ''Done.---__CITATIONS__---   '') SENTINEL) 0 = Some pre"
      and "at_js (split_js (js ''Done.---__CITATIONS__---   '') SENTINEL) 1 = Some raw"
      and ev: "events (handleAsk example_props ?E example_box) =
             events example_box @ [SetLoading True, Fetch (ask_request example_props example_box)]
               @ (if trim_js raw = [] then []
                  else JsonParse (trim_js raw)
                         # (case JSON_parse (trim_js raw) of
                              Some c \<Rightarrow> []
                            | None \<Rightarrow> [ConsoleError (js ''Failed to parse citations'')]))
               @ [SetLoading False, SetQuestion []]"
      and ms: "trim_js raw = [] \<longrightarrow>
              messages (handleAsk example_props ?E example_box) =
                messages example_box @ [user_message ?E example_box, answer ?E pre (JArray [])]"
    by auto
  then have "pre = js ''Done.''" and "raw = js ''   ''"
    unfolding parts by (simp_all add: at_js_def)
  with ev ms blank show ?thesis
    by (simp add: example_box_fields example_env_fields)
qed

text \<open>
  C5, as the code has it.  When the sentinel is found in the buffer \<open>B\<close>, whose first
  sentinel comes after \<open>pre\<close>, and the trimmed \<^verbatim>\<open>parts[1]\<close> is empty or does not parse,
  the answer ends with the text \<open>pre\<close> and the empty citation list, in the last list
  rendered; the failed parse is logged, no error entry is added and the loading flag is
  off.
\<close>

theorem unparsable_payload_gives_no_citations:
  assumes "\<not> falsy (sessionId p)" and "trim_js (question w) \<noteq> []"
    and "apiStream (network env) = Inr r" and "body r = Some b"
    and "detected (buffers new_TextDecoder [] (chunks b)) = Some B"
    and "B = pre @ SENTINEL @ rest" and "\<not> includes_js (pre @ butlast SENTINEL) SENTINEL"
    and "at_js (split_js B SENTINEL) 1 = Some raw"
    and "JSON_parse (trim_js raw) = None"
  shows "messages (handleAsk p env w) = messages w @ [user_message env w, answer env pre (JArray [])]
       \<and> last (rendered (handleAsk p env w)) = messages (handleAsk p env w)
       \<and> loading (handleAsk p env w) = False
       \<and> events (handleAsk p env w) =
           events w @ [SetLoading True, Fetch (ask_request p w)]
             @ (if trim_js raw = [] then []
                else [JsonParse (trim_js raw), ConsoleError (js ''Failed to parse citations'')])
             @ [SetLoading False, SetQuestion []]"
proof -
  have p0: "at_js (split_js B SENTINEL) 0 = Some pre"
    unfolding assms(6) split_js_first [OF assms(7)] by (simp add: at_js_def)
  show ?thesis
    unfolding handleAsk_detected [OF assms(1-5)] p0 assms(8)
    by (simp add: or_empty_Some final_citations_def parse_log_def assms(9))
qed

theorem unparsable_payload_gives_no_citations_witness:
  "messages (handleAsk example_props
      (example_env [ascii ''The answer is 42.---__CITATIONS__---not valid json''] StreamDone) example_box) =
     [example_question, example_answer (js ''The answer is 42.'') (JArray [])]
   \<and> loading (handleAsk example_props
      (example_env [ascii ''The answer is 42.---__CITATIONS__---not valid json''] StreamDone) example_box) = False
   \<and> events (handleAsk example_props
      (example_env [ascii ''The answer is 42.---__CITATIONS__---not valid json''] StreamDone) example_box) =
     [SetLoading True, Fetch (ask_request example_props example_box),
      JsonParse (js ''not valid json''), ConsoleError (js ''Failed to parse citations''),
      SetLoading False, SetQuestion []]"
proof -
  let ?x = "''The answer is 42.---__CITATIONS__---not valid json''"
  have dec: "decode new_TextDecoder (ascii ?x) = (js ?x, new_TextDecoder\<lparr>bom_seen := True\<rparr>)"
    by (simp add: decode_eval)
  have inc: "includes_js (js ?x) SENTINEL"
    by (simp add: js_def SENTINEL_def)
  have det: "detected (buffers new_TextDecoder [] (chunks \<lparr>chunks = [ascii ?x], ending = StreamDone\<rparr>)) =
               Some (js ?x)"
    using single_chunk_detected(1) [OF dec inc] by simp
  have B: "js ?x = js ''The answer is 42.'' @ SENTINEL @ js ''not valid json''"
    by (simp add: js_def SENTINEL_def)
  have first: "\<not> includes_js (js ''The answer is 42.'' @ butlast SENTINEL) SENTINEL"
    by (simp add: js_def SENTINEL_def)
  have raw: "at_js (split_js (js ?x) SENTINEL) 1 = Some (js ''not valid json'')"
    by (simp add: string_eval)
  have payload: "trim_js (js ''not valid json'') = js ''not valid json''"
    by (simp add: string_eval)
  have bad: "JSON_parse (trim_js (js ''not valid json'')) = None"
    unfolding payload by (simp add: json_eval js_def)
  have ne: "js ''not valid json'' \<noteq> []" by (simp add: js_def)
  from unparsable_payload_gives_no_citations
         [OF example_guards example_stream _ det B first raw bad]
  show ?thesis
    by (simp add: example_box_fields example_env_fields payload ne)
qed

text \<open>
  C5, as stated, fails: the text after the sentinel need not be valid JSON for citations
  to come out.  \<^verbatim>\<open>trim\<close> removes more than \<^verbatim>\<open>JSON.parse\<close> skips: the text after the
  sentinel here starts with a vertical tab, which JSON does not allow, so that it is not
  valid JSON, and the answer still ends with the citation list \<^verbatim>\<open>[1]\<close>.
\<close>

theorem unparsable_payload_counterexample:
  "decode_all new_TextDecoder [ascii ''x---__CITATIONS__---'' @ [0x0B] @ ascii ''[1]''] =
     js ''x'' @ SENTINEL @ ([0x0B] @ js ''[1]'')
   \<and> JSON_parse ([0x0B] @ js ''[1]'') = None
   \<and> messages (handleAsk example_props
         (example_env [ascii ''x---__CITATIONS__---'' @ [0x0B] @ ascii ''[1]''] StreamDone) example_box) =
       [example_question, example_answer (js ''x'') (JArray [JNumber 1])]"
proof -
  let ?c = "ascii ''x---__CITATIONS__---'' @ [0x0B] @ ascii ''[1]''"
  let ?B = "js ''x---__CITATIONS__---'' @ [0x0B] @ js ''[1]''"
  have dec: "decode new_TextDecoder ?c = (?B, new_TextDecoder\<lparr>bom_seen := True\<rparr>)"
    by (simp add: decode_eval)
  have inc: "includes_js ?B SENTINEL"
    by (simp add: js_def SENTINEL_def)
  note det = single_chunk_detected [OF dec inc]
  have parts: "split_js ?B SENTINEL = [js ''x'', 0x0B # js ''[1]'']"
    by (simp add: string_eval)
  have payload: "trim_js (0x0B # js ''[1]'') = js ''[1]''" "js ''[1]'' \<noteq> []"
    by (simp_all add: string_eval)
  have parsed: "JSON_parse (js ''[1]'') = Some (JArray [JNumber 1])"
    by (simp add: json_eval js_def)
  have whole: "decode_all new_TextDecoder [?c] = js ''x'' @ SENTINEL @ ([0x0B] @ js ''[1]'')"
    using dec by (simp add: js_def SENTINEL_def)
  have bad: "JSON_parse ([0x0B] @ js ''[1]'') = None"
    by (simp add: json_eval js_def)
  have run: "messages (handleAsk example_props (example_env [?c] StreamDone) example_box) =
       [example_question, example_answer (js ''x'') (JArray [JNumber 1])]"
    unfolding example_detected [OF det(1)] det(2) parts
    by (simp add: at_js_def or_empty_def payload parsed final_citations_def example_env_fields)
  from whole bad run show ?thesis by blast
qed




end
